theory Spec2Isabelle
  imports Main
begin

section \<open>Log configuration (main.go, lines 53-62 and 171-186)\<close>

text \<open>
  The levels of \<^verbatim>\<open>zap\<close> that the source names, and the options that
  \<^verbatim>\<open>setLoggerForProduction\<close> appends to \<^verbatim>\<open>opts\<close>. Durations are
  nanoseconds, as in Go's \<^verbatim>\<open>time.Duration\<close>.
\<close>

definition second :: nat where
  "second = 1000000000"

datatype zap_level = DebugLevel | InfoLevel | WarnLevel | ErrorLevel

datatype sink = Stderr

datatype encoder = JSONEncoderProduction

datatype zap_option =
    AddStacktrace zap_level
  | WrapCoreSampler nat nat nat
  | AddCallerSkip nat
  | ErrorOutput sink

record zap_core =
  core_encoder :: encoder
  core_verbose :: bool
  core_sink :: sink
  core_level :: zap_level

text \<open>
  The logger handed to \<^verbatim>\<open>logf.SetLogger\<close>: either what
  \<^verbatim>\<open>logf.ZapLogger(development)\<close> builds (a library function, kept opaque, with
  its argument), or the \<^verbatim>\<open>zapr\<close> logger built in this file from a core and options.
\<close>

datatype logger =
    ZapLogger bool
  | ZaprLogger zap_core "zap_option list"

definition setLoggerForProduction :: logger where
  "setLoggerForProduction =
     (let sink = Stderr;
          opts0 = [];
          enc = JSONEncoderProduction;
          lvl = WarnLevel;
          opts1 = opts0 @ [AddStacktrace ErrorLevel, WrapCoreSampler second 100 100];
          opts2 = opts1 @ [AddCallerSkip 1, ErrorOutput sink]
      in ZaprLogger \<lparr>core_encoder = enc, core_verbose = False,
                      core_sink = sink, core_level = lvl\<rparr> opts2)"

text \<open>The \<^verbatim>\<open>switch *logLevel\<close> of \<^verbatim>\<open>main\<close>, cases in source order.\<close>

definition setLogger :: "string \<Rightarrow> logger" where
  "setLogger lvl =
     (if lvl = ''DEBUG'' then ZapLogger True
      else if lvl = ''WARNING'' \<or> lvl = ''ERROR'' then setLoggerForProduction
      else if lvl = ''INFO'' then ZapLogger False
      else ZapLogger False)"


section \<open>The environment of \<^verbatim>\<open>main\<close>\<close>

text \<open>
  Everything \<^verbatim>\<open>main\<close> calls is a collaborator outside this file. Its outcome
  is an input of the model: the flag value, and for every fallible call whether the
  returned \<^verbatim>\<open>err\<close> is non-nil.
\<close>

record env =
  logLevel :: string
  getConfigErr :: bool
  managerNewErr :: bool
  addToSchemeErr :: bool
  newBackendErr :: bool
  newClientErr :: bool
  controllerErr :: bool
  webhookErr :: bool
  auditErr :: bool
  upgradeErr :: bool
  startErr :: bool
  cliNewErr :: bool


section \<open>Events and state\<close>

datatype call =
    GetConfig | ManagerNew | AddToScheme | LocalNew | NewBackend | NewClient
  | ContextWithCancel | WatchNew | ControllerAdd | WebhookAdd | AuditAdd | UpgradeAdd
  | K8sCliNew

datatype event =
    SetLogger logger
  | LogInfo string
  | LogError string
  | Call call
  | StartCalled
  | StartReturned bool
  | WmCancel
  | SleepBegin nat
  | SleepEnd
  | GoSync
  | GoTempl
  | SyncFired
  | TemplFired
  | RecvSync
  | RecvTempl
  | Exit nat

text \<open>
  What an observer of the process sees, in order: the logger installed, the log lines,
  each call into a collaborator, the call of \<^verbatim>\<open>mgr.Start\<close> and its return
  (with whether the error is non-nil), \<^verbatim>\<open>wmCancel()\<close>, the begin and end of
  \<^verbatim>\<open>time.Sleep\<close>, the two \<^verbatim>\<open>go\<close> statements, the completion signal
  of each worker, the two channel receives of \<^verbatim>\<open>main\<close>, and the exit with its
  status.

  Program locations of \<^verbatim>\<open>main\<close>, one per statement (a call and the
  \<^verbatim>\<open>if err != nil\<close> after it are two locations; a blocking call has a location
  for the wait). \<^verbatim>\<open>L_Running\<close> is \<^verbatim>\<open>main\<close> inside
  \<^verbatim>\<open>mgr.Start\<close>: its step is the return of that call, so the model
  describes the executions in which the termination signal arrives.
\<close>

datatype loc =
    L_SetLogger
  | L_GetConfig | L_GetConfigChk
  | L_ManagerNew | L_ManagerNewChk
  | L_AddToScheme | L_AddToSchemeChk
  | L_NewBackend | L_NewBackendChk
  | L_NewClient | L_NewClientChk
  | L_WatchNew
  | L_Controller | L_ControllerChk
  | L_Webhook | L_WebhookChk
  | L_Audit | L_AuditChk
  | L_Upgrade | L_UpgradeChk
  | L_Start | L_Running | L_StartChk
  | L_WmCancel
  | L_Sleep | L_Sleeping
  | L_CliNew | L_CliNewChk
  | L_GoSync | L_GoTempl
  | L_RecvSync | L_RecvTempl
  | L_Final

datatype worker = NotStarted | Working | Signalled

text \<open>
  The variables of \<^verbatim>\<open>main\<close> that decide its control flow
  (\<^verbatim>\<open>err\<close> as "is non-nil", \<^verbatim>\<open>hadError\<close>), the installed logger,
  the exit status once the process has terminated, a clock in nanoseconds with the
  deadline of the pending \<^verbatim>\<open>time.Sleep\<close>, the two worker goroutines, and the
  trace of events, each stamped with the clock.
\<close>

record state =
  pc :: loc
  exited :: "nat option"
  logger :: "logger option"
  err :: bool
  hadError :: bool
  now :: nat
  wake :: nat
  syncWorker :: worker
  templWorker :: worker
  trace :: "(nat \<times> event) list"

definition init :: state where
  "init = \<lparr>pc = L_SetLogger, exited = None, logger = None, err = False, hadError = False,
           now = 0, wake = 0, syncWorker = NotStarted, templWorker = NotStarted,
           trace = []\<rparr>"

definition evs :: "state \<Rightarrow> event list" where
  "evs s = map snd (trace s)"

definition emit :: "event list \<Rightarrow> state \<Rightarrow> state" where
  "emit es s = s\<lparr>trace := trace s @ map (Pair (now s)) es\<rparr>"

definition goto :: "loc \<Rightarrow> state \<Rightarrow> state" where
  "goto l s = s\<lparr>pc := l\<rparr>"

text \<open>\<^verbatim>\<open>os.Exit(k)\<close>, and the return from \<^verbatim>\<open>main\<close> (status 0).\<close>

definition os_exit :: "nat \<Rightarrow> state \<Rightarrow> state" where
  "os_exit k s = (emit [Exit k] s)\<lparr>exited := Some k\<rparr>"

text \<open>The \<^verbatim>\<open>if err != nil { log.Error(err, msg); os.Exit(1) }\<close> after a call.\<close>

definition fatal_check :: "string \<Rightarrow> loc \<Rightarrow> state \<Rightarrow> state" where
  "fatal_check msg next s =
     (if err s then os_exit 1 (emit [LogError msg] s) else goto next s)"

definition drain_delay :: nat where
  "drain_delay = 5 * second"


section \<open>One step of \<^verbatim>\<open>main\<close>\<close>

fun main_step :: "env \<Rightarrow> loc \<Rightarrow> state \<Rightarrow> state" where
  "main_step e L_SetLogger s =
     goto L_GetConfig (emit [SetLogger (setLogger (logLevel e))]
       (s\<lparr>logger := Some (setLogger (logLevel e))\<rparr>))"
| "main_step e L_GetConfig s =
     goto L_GetConfigChk
       ((emit [LogInfo ''setting up client for manager'', Call GetConfig] s)
          \<lparr>err := getConfigErr e\<rparr>)"
| "main_step e L_GetConfigChk s =
     fatal_check ''unable to set up client config'' L_ManagerNew s"
| "main_step e L_ManagerNew s =
     goto L_ManagerNewChk
       ((emit [LogInfo ''setting up manager'', Call ManagerNew] s)
          \<lparr>err := managerNewErr e\<rparr>)"
| "main_step e L_ManagerNewChk s =
     fatal_check ''unable to set up overall controller manager'' L_AddToScheme s"
| "main_step e L_AddToScheme s =
     goto L_AddToSchemeChk
       ((emit [LogInfo ''Registering Components.'', LogInfo ''setting up scheme'',
               Call AddToScheme] s)
          \<lparr>err := addToSchemeErr e\<rparr>)"
| "main_step e L_AddToSchemeChk s =
     fatal_check ''unable add APIs to scheme'' L_NewBackend s"
| "main_step e L_NewBackend s =
     goto L_NewBackendChk
       ((emit [Call LocalNew, Call NewBackend] s)\<lparr>err := newBackendErr e\<rparr>)"
| "main_step e L_NewBackendChk s =
     fatal_check ''unable to set up OPA backend'' L_NewClient s"
| "main_step e L_NewClient s =
     goto L_NewClientChk ((emit [Call NewClient] s)\<lparr>err := newClientErr e\<rparr>)"
| "main_step e L_NewClientChk s =
     goto L_WatchNew
       (if err s then emit [LogError ''unable to set up OPA client''] s else s)"
| "main_step e L_WatchNew s =
     goto L_Controller (emit [Call ContextWithCancel, Call WatchNew] s)"
| "main_step e L_Controller s =
     goto L_ControllerChk
       ((emit [LogInfo ''Setting up controller'', Call ControllerAdd] s)
          \<lparr>err := controllerErr e\<rparr>)"
| "main_step e L_ControllerChk s =
     fatal_check ''unable to register controllers to the manager'' L_Webhook s"
| "main_step e L_Webhook s =
     goto L_WebhookChk
       ((emit [LogInfo ''setting up webhooks'', Call WebhookAdd] s)
          \<lparr>err := webhookErr e\<rparr>)"
| "main_step e L_WebhookChk s =
     fatal_check ''unable to register webhooks to the manager'' L_Audit s"
| "main_step e L_Audit s =
     goto L_AuditChk
       ((emit [LogInfo ''setting up audit'', Call AuditAdd] s)\<lparr>err := auditErr e\<rparr>)"
| "main_step e L_AuditChk s =
     fatal_check ''unable to register audit to the manager'' L_Upgrade s"
| "main_step e L_Upgrade s =
     goto L_UpgradeChk
       ((emit [LogInfo ''setting up upgrade'', Call UpgradeAdd] s)
          \<lparr>err := upgradeErr e\<rparr>)"
| "main_step e L_UpgradeChk s =
     fatal_check ''unable to register upgrade to the manager'' L_Start s"
| "main_step e L_Start s =
     goto L_Running
       ((emit [LogInfo ''Starting the Cmd.'', StartCalled] s)\<lparr>hadError := False\<rparr>)"
| "main_step e L_Running s =
     goto L_StartChk ((emit [StartReturned (startErr e)] s)\<lparr>err := startErr e\<rparr>)"
| "main_step e L_StartChk s =
     goto L_WmCancel
       (if err s then (emit [LogError ''unable to run the manager''] s)\<lparr>hadError := True\<rparr>
        else s)"
| "main_step e L_WmCancel s = goto L_Sleep (emit [WmCancel] s)"
| "main_step e L_Sleep s =
     goto L_Sleeping ((emit [SleepBegin drain_delay] s)\<lparr>wake := now s + drain_delay\<rparr>)"
| "main_step e L_Sleeping s =
     (if wake s \<le> now s then goto L_CliNew (emit [SleepEnd] s) else s)"
| "main_step e L_CliNew s =
     goto L_CliNewChk
       ((emit [LogInfo ''removing finalizers...'', Call K8sCliNew] s)
          \<lparr>err := cliNewErr e\<rparr>)"
| "main_step e L_CliNewChk s =
     fatal_check ''unable to create cleanup client'' L_GoSync s"
| "main_step e L_GoSync s =
     goto L_GoTempl ((emit [GoSync] s)\<lparr>syncWorker := Working\<rparr>)"
| "main_step e L_GoTempl s =
     goto L_RecvSync ((emit [GoTempl] s)\<lparr>templWorker := Working\<rparr>)"
| "main_step e L_RecvSync s =
     (if syncWorker s = Signalled then goto L_RecvTempl (emit [RecvSync] s) else s)"
| "main_step e L_RecvTempl s =
     (if templWorker s = Signalled then goto L_Final (emit [RecvTempl] s) else s)"
| "main_step e L_Final s =
     (let s' = emit [LogInfo ''finalizers removed''] s
      in if hadError s' then os_exit 1 s' else os_exit 0 s')"


section \<open>The finalizer cleanup workers, the clock, and schedules\<close>

text \<open>
  Modelled from the spec: the bodies of \<^verbatim>\<open>configController.RemoveAllConfigFinalizers\<close>
  and \<^verbatim>\<open>constrainttemplate.RemoveAllFinalizers\<close> are not in this file. Following
  section 4.4 of the specification, a started worker does its removals and then fires
  its completion signal exactly once, whatever the removals did; it has no other effect
  on \<^verbatim>\<open>main\<close>.
\<close>

definition sync_step :: "state \<Rightarrow> state" where
  "sync_step s =
     (if syncWorker s = Working then (emit [SyncFired] s)\<lparr>syncWorker := Signalled\<rparr> else s)"

text \<open>
  Modelled from the spec: the same contract (section 4.4) for
  \<^verbatim>\<open>constrainttemplate.RemoveAllFinalizers\<close> and its channel
  \<^verbatim>\<open>templatesCleaned\<close>.
\<close>

definition templ_step :: "state \<Rightarrow> state" where
  "templ_step s =
     (if templWorker s = Working then (emit [TemplFired] s)\<lparr>templWorker := Signalled\<rparr>
      else s)"

text \<open>
  A schedule names, step by step, who moves: \<^verbatim>\<open>main\<close>, one of the two worker
  goroutines, or the clock (by a number of nanoseconds). A thread that is blocked, or a
  worker that is not running, leaves the state as it is. Statements of \<^verbatim>\<open>main\<close>
  take no time of their own; \<^verbatim>\<open>time.Sleep\<close> returns once the clock has reached
  its deadline, and a receive returns once the worker has signalled. Once the process
  has exited nothing moves any more.
\<close>

datatype thread = MainT | SyncT | TemplT | Tick nat

definition step :: "env \<Rightarrow> thread \<Rightarrow> state \<Rightarrow> state" where
  "step e t s =
     (if exited s \<noteq> None then s
      else case t of
             MainT \<Rightarrow> main_step e (pc s) s
           | SyncT \<Rightarrow> sync_step s
           | TemplT \<Rightarrow> templ_step s
           | Tick n \<Rightarrow> s\<lparr>now := now s + n\<rparr>)"

definition exec_from :: "env \<Rightarrow> state \<Rightarrow> thread list \<Rightarrow> state" where
  "exec_from e s sched = fold (step e) sched s"

definition exec :: "env \<Rightarrow> thread list \<Rightarrow> state" where
  "exec e sched = exec_from e init sched"


section \<open>Auxiliary notions: program order, observable order, invariants\<close>

text \<open>
  The position of a location in the program text.
\<close>

fun rank :: "loc \<Rightarrow> nat" where
  "rank L_SetLogger = 0"
| "rank L_GetConfig = 1" | "rank L_GetConfigChk = 2"
| "rank L_ManagerNew = 3" | "rank L_ManagerNewChk = 4"
| "rank L_AddToScheme = 5" | "rank L_AddToSchemeChk = 6"
| "rank L_NewBackend = 7" | "rank L_NewBackendChk = 8"
| "rank L_NewClient = 9" | "rank L_NewClientChk = 10"
| "rank L_WatchNew = 11"
| "rank L_Controller = 12" | "rank L_ControllerChk = 13"
| "rank L_Webhook = 14" | "rank L_WebhookChk = 15"
| "rank L_Audit = 16" | "rank L_AuditChk = 17"
| "rank L_Upgrade = 18" | "rank L_UpgradeChk = 19"
| "rank L_Start = 20" | "rank L_Running = 21" | "rank L_StartChk = 22"
| "rank L_WmCancel = 23"
| "rank L_Sleep = 24" | "rank L_Sleeping = 25"
| "rank L_CliNew = 26" | "rank L_CliNewChk = 27"
| "rank L_GoSync = 28" | "rank L_GoTempl = 29"
| "rank L_RecvSync = 30" | "rank L_RecvTempl = 31"
| "rank L_Final = 32"

text \<open>
  The events that \<^verbatim>\<open>main\<close> emits at a fixed place of its text whatever the
  outcomes are (everything but log lines, worker signals and exits), the list of all of
  them in program order, and how many of them lie before each location.
\<close>

fun is_marker :: "event \<Rightarrow> bool" where
  "is_marker (LogInfo _) = False"
| "is_marker (LogError _) = False"
| "is_marker SyncFired = False"
| "is_marker TemplFired = False"
| "is_marker (Exit _) = False"
| "is_marker _ = True"

definition markers :: "env \<Rightarrow> event list" where
  "markers e =
     [SetLogger (setLogger (logLevel e)),
      Call GetConfig, Call ManagerNew, Call AddToScheme, Call LocalNew, Call NewBackend,
      Call NewClient, Call ContextWithCancel, Call WatchNew, Call ControllerAdd,
      Call WebhookAdd, Call AuditAdd, Call UpgradeAdd,
      StartCalled, StartReturned (startErr e), WmCancel, SleepBegin drain_delay, SleepEnd,
      Call K8sCliNew, GoSync, GoTempl, RecvSync, RecvTempl]"

fun nmark :: "loc \<Rightarrow> nat" where
  "nmark L_SetLogger = 0"
| "nmark L_GetConfig = 1" | "nmark L_GetConfigChk = 2"
| "nmark L_ManagerNew = 2" | "nmark L_ManagerNewChk = 3"
| "nmark L_AddToScheme = 3" | "nmark L_AddToSchemeChk = 4"
| "nmark L_NewBackend = 4" | "nmark L_NewBackendChk = 6"
| "nmark L_NewClient = 6" | "nmark L_NewClientChk = 7"
| "nmark L_WatchNew = 7"
| "nmark L_Controller = 9" | "nmark L_ControllerChk = 10"
| "nmark L_Webhook = 10" | "nmark L_WebhookChk = 11"
| "nmark L_Audit = 11" | "nmark L_AuditChk = 12"
| "nmark L_Upgrade = 12" | "nmark L_UpgradeChk = 13"
| "nmark L_Start = 13" | "nmark L_Running = 14" | "nmark L_StartChk = 15"
| "nmark L_WmCancel = 15"
| "nmark L_Sleep = 16" | "nmark L_Sleeping = 17"
| "nmark L_CliNew = 18" | "nmark L_CliNewChk = 19"
| "nmark L_GoSync = 19" | "nmark L_GoTempl = 20"
| "nmark L_RecvSync = 21" | "nmark L_RecvTempl = 22"
| "nmark L_Final = 23"

text \<open>
  The marker events seen so far are exactly those before the current location, in
  program order.
\<close>

definition marks_ok :: "env \<Rightarrow> state \<Rightarrow> bool" where
  "marks_ok e s \<longleftrightarrow> filter is_marker (evs s) = take (nmark (pc s)) (markers e)"

text \<open>
  \<open>precedes P Q xs\<close>: every element of \<open>xs\<close> that satisfies \<open>Q\<close> has an element
  that satisfies \<open>P\<close> strictly before it.
\<close>

fun precedes :: "('a \<Rightarrow> bool) \<Rightarrow> ('a \<Rightarrow> bool) \<Rightarrow> 'a list \<Rightarrow> bool" where
  "precedes P Q [] = True"
| "precedes P Q (x # xs) = (\<not> Q x \<and> (P x \<or> precedes P Q xs))"

text \<open>
  The workers follow \<^verbatim>\<open>main\<close>: a worker runs only once its \<^verbatim>\<open>go\<close>
  statement is passed, a receive is passed only after the signal, and each signal is in
  the trace exactly when the worker has signalled.
\<close>

definition work_ok :: "state \<Rightarrow> bool" where
  "work_ok s \<longleftrightarrow>
     (syncWorker s = NotStarted \<longleftrightarrow> rank (pc s) \<le> rank L_GoSync) \<and>
     (templWorker s = NotStarted \<longleftrightarrow> rank (pc s) \<le> rank L_GoTempl) \<and>
     (rank L_RecvSync < rank (pc s) \<longrightarrow> syncWorker s = Signalled) \<and>
     (rank L_RecvTempl < rank (pc s) \<longrightarrow> templWorker s = Signalled) \<and>
     (SyncFired \<in> set (evs s) \<longleftrightarrow> syncWorker s = Signalled) \<and>
     (TemplFired \<in> set (evs s) \<longleftrightarrow> templWorker s = Signalled) \<and>
     count_list (evs s) SyncFired \<le> 1 \<and>
     count_list (evs s) TemplFired \<le> 1 \<and>
     precedes (\<lambda>x. x = SyncFired) (\<lambda>x. x = RecvSync) (evs s) \<and>
     precedes (\<lambda>x. x = TemplFired) (\<lambda>x. x = RecvTempl) (evs s)"

text \<open>
  The outcome of each call in an environment, and the nine places where
  \<^verbatim>\<open>main\<close> treats a non-nil error as fatal, with the call checked there and the
  message logged.
\<close>

fun fails :: "env \<Rightarrow> call \<Rightarrow> bool" where
  "fails e GetConfig = getConfigErr e"
| "fails e ManagerNew = managerNewErr e"
| "fails e AddToScheme = addToSchemeErr e"
| "fails e LocalNew = False"
| "fails e NewBackend = newBackendErr e"
| "fails e NewClient = newClientErr e"
| "fails e ContextWithCancel = False"
| "fails e WatchNew = False"
| "fails e ControllerAdd = controllerErr e"
| "fails e WebhookAdd = webhookErr e"
| "fails e AuditAdd = auditErr e"
| "fails e UpgradeAdd = upgradeErr e"
| "fails e K8sCliNew = cliNewErr e"

fun fatal_at :: "loc \<Rightarrow> (call \<times> string) option" where
  "fatal_at L_GetConfigChk = Some (GetConfig, ''unable to set up client config'')"
| "fatal_at L_ManagerNewChk = Some (ManagerNew, ''unable to set up overall controller manager'')"
| "fatal_at L_AddToSchemeChk = Some (AddToScheme, ''unable add APIs to scheme'')"
| "fatal_at L_NewBackendChk = Some (NewBackend, ''unable to set up OPA backend'')"
| "fatal_at L_ControllerChk = Some (ControllerAdd, ''unable to register controllers to the manager'')"
| "fatal_at L_WebhookChk = Some (WebhookAdd, ''unable to register webhooks to the manager'')"
| "fatal_at L_AuditChk = Some (AuditAdd, ''unable to register audit to the manager'')"
| "fatal_at L_UpgradeChk = Some (UpgradeAdd, ''unable to register upgrade to the manager'')"
| "fatal_at L_CliNewChk = Some (K8sCliNew, ''unable to create cleanup client'')"
| "fatal_at _ = None"

text \<open>
  At a fatal check, \<^verbatim>\<open>err\<close> is the outcome of the call just made, and the trace
  ends with that call, followed by the error log and the exit if the process has exited.
\<close>

definition chk_ok :: "env \<Rightarrow> state \<Rightarrow> bool" where
  "chk_ok e s \<longleftrightarrow>
     (case fatal_at (pc s) of
        None \<Rightarrow> True
      | Some (c, m) \<Rightarrow>
          err s = fails e c \<and>
          (case exited s of
             None \<Rightarrow> \<exists>pre. evs s = pre @ [Call c]
           | Some k \<Rightarrow> k = 1 \<and> err s \<and> (\<exists>pre. evs s = pre @ [Call c, LogError m, Exit 1])))"

text \<open>
  An exit happens at a fatal check or at the end of \<^verbatim>\<open>main\<close>, and the exit
  event is the last of the trace and the only one.
\<close>

definition exit_ok :: "state \<Rightarrow> bool" where
  "exit_ok s \<longleftrightarrow>
     (case exited s of
        None \<Rightarrow> \<forall>k. Exit k \<notin> set (evs s)
      | Some k \<Rightarrow>
          (fatal_at (pc s) \<noteq> None \<or> pc s = L_Final) \<and>
          (pc s = L_Final \<longrightarrow> k = (if hadError s then 1 else 0)) \<and>
          (\<exists>pre. evs s = pre @ [Exit k] \<and> (\<forall>k'. Exit k' \<notin> set pre)))"

text \<open>
  The two errors that \<^verbatim>\<open>main\<close> only records: that of the policy client and
  that of the run call.
\<close>

definition had_ok :: "env \<Rightarrow> state \<Rightarrow> bool" where
  "had_ok e s \<longleftrightarrow>
     (pc s = L_NewClientChk \<longrightarrow> err s = newClientErr e) \<and>
     (pc s = L_Running \<longrightarrow> \<not> hadError s) \<and>
     (pc s = L_StartChk \<longrightarrow> \<not> hadError s \<and> err s = startErr e) \<and>
     (rank L_StartChk < rank (pc s) \<longrightarrow> hadError s = startErr e) \<and>
     (LogError ''unable to set up OPA client'' \<in> set (evs s) \<longleftrightarrow>
        newClientErr e \<and> rank L_NewClientChk < rank (pc s)) \<and>
     (LogError ''unable to run the manager'' \<in> set (evs s) \<longleftrightarrow>
        startErr e \<and> rank L_StartChk < rank (pc s))"

text \<open>
  Control never passes a fatal check whose call fails.
\<close>

definition limit_ok :: "env \<Rightarrow> state \<Rightarrow> bool" where
  "limit_ok e s \<longleftrightarrow>
     (\<forall>l c m. fatal_at l = Some (c, m) \<and> fails e c \<longrightarrow> rank (pc s) \<le> rank l)"

text \<open>
  The events of \<^verbatim>\<open>main\<close> after \<^verbatim>\<open>time.Sleep\<close>, and the clock
  invariant: stamps never exceed the clock, the deadline is at least the drain delay
  after the cancellation, and everything after the sleep is stamped past the deadline.
\<close>

fun after_sleep :: "event \<Rightarrow> bool" where
  "after_sleep SleepEnd = True"
| "after_sleep (Call c) = (c = K8sCliNew)"
| "after_sleep GoSync = True"
| "after_sleep GoTempl = True"
| "after_sleep RecvSync = True"
| "after_sleep RecvTempl = True"
| "after_sleep _ = False"

definition time_ok :: "state \<Rightarrow> bool" where
  "time_ok s \<longleftrightarrow>
     (\<forall>t x. (t, x) \<in> set (trace s) \<longrightarrow> t \<le> now s) \<and>
     (\<forall>t. (t, WmCancel) \<in> set (trace s) \<longrightarrow> rank L_WmCancel < rank (pc s)) \<and>
     (rank L_Sleep < rank (pc s) \<longrightarrow>
        (\<forall>t. (t, WmCancel) \<in> set (trace s) \<longrightarrow> t + drain_delay \<le> wake s)) \<and>
     (rank L_Sleeping < rank (pc s) \<longrightarrow> wake s \<le> now s) \<and>
     (\<forall>t x. (t, x) \<in> set (trace s) \<and> after_sleep x \<longrightarrow>
        wake s \<le> t \<and> rank L_Sleeping < rank (pc s))"

text \<open>
  When the policy client cannot be built, the error is logged before the watch manager
  is set up.
\<close>

definition log_ok :: "env \<Rightarrow> state \<Rightarrow> bool" where
  "log_ok e s \<longleftrightarrow>
     (newClientErr e \<longrightarrow>
        precedes (\<lambda>x. x = LogError ''unable to set up OPA client'')
          (\<lambda>x. x = Call ContextWithCancel) (evs s))"

definition inv :: "env \<Rightarrow> state \<Rightarrow> bool" where
  "inv e s \<longleftrightarrow>
     marks_ok e s \<and> work_ok s \<and> chk_ok e s \<and> exit_ok s \<and> had_ok e s \<and> limit_ok e s \<and>
     time_ok s \<and> log_ok e s"

text \<open>
  A scheduler that always lets somebody move who can, and a bound on the moves left
  before the exit.
\<close>

definition next_move :: "state \<Rightarrow> thread" where
  "next_move s =
     (if pc s = L_Sleeping \<and> now s < wake s then Tick (wake s - now s)
      else if pc s = L_RecvSync \<and> syncWorker s \<noteq> Signalled then SyncT
      else if pc s = L_RecvTempl \<and> templWorker s \<noteq> Signalled then TemplT
      else MainT)"

definition todo :: "state \<Rightarrow> nat" where
  "todo s =
     (if exited s \<noteq> None then 0
      else 2 * (33 - rank (pc s))
           + (if pc s = L_Sleeping \<and> now s < wake s then 1 else 0)
           + (if syncWorker s = Signalled then 0 else 1)
           + (if templWorker s = Signalled then 0 else 1))"

text \<open>
  The location at which each call is made.
\<close>

fun call_loc :: "call \<Rightarrow> loc" where
  "call_loc GetConfig = L_GetConfig"
| "call_loc ManagerNew = L_ManagerNew"
| "call_loc AddToScheme = L_AddToScheme"
| "call_loc LocalNew = L_NewBackend"
| "call_loc NewBackend = L_NewBackend"
| "call_loc NewClient = L_NewClient"
| "call_loc ContextWithCancel = L_WatchNew"
| "call_loc WatchNew = L_WatchNew"
| "call_loc ControllerAdd = L_Controller"
| "call_loc WebhookAdd = L_Webhook"
| "call_loc AuditAdd = L_Audit"
| "call_loc UpgradeAdd = L_Upgrade"
| "call_loc K8sCliNew = L_CliNew"

definition ok_env :: env where
  "ok_env = \<lparr>logLevel = ''INFO'', getConfigErr = False, managerNewErr = False,
     addToSchemeErr = False, newBackendErr = False, newClientErr = False,
     controllerErr = False, webhookErr = False, auditErr = False, upgradeErr = False,
     startErr = False, cliNewErr = False\<rparr>"

text \<open>
  Some setup step whose failure \<^verbatim>\<open>main\<close> treats as fatal fails.
\<close>

definition fatal_setup :: "env \<Rightarrow> bool" where
  "fatal_setup e \<longleftrightarrow>
     getConfigErr e \<or> managerNewErr e \<or> addToSchemeErr e \<or> newBackendErr e \<or>
     controllerErr e \<or> webhookErr e \<or> auditErr e \<or> upgradeErr e"

text \<open>
  The setup failures that the specification lists for exit status 1: connection
  discovery, manager construction, scheme registration and the four registrations.
\<close>

definition listed_setup_failure :: "env \<Rightarrow> bool" where
  "listed_setup_failure e \<longleftrightarrow>
     getConfigErr e \<or> managerNewErr e \<or> addToSchemeErr e \<or>
     controllerErr e \<or> webhookErr e \<or> auditErr e \<or> upgradeErr e"

fun is_StartReturned :: "event \<Rightarrow> bool" where
  "is_StartReturned (StartReturned b) = True"
| "is_StartReturned _ = False"

text \<open>
  The handles of \<^verbatim>\<open>main\<close> (its local variables bound to results of calls),
  the handles each call assigns and the handles it takes as arguments, as the source
  writes them. \<open>handles_ok av es\<close>: along \<open>es\<close>, every call finds its arguments
  among \<open>av\<close> and the results of earlier calls.
\<close>

datatype handle =
    H_cfg | H_mgr | H_driver | H_backend | H_client | H_wmCtx | H_wmCancel | H_wm | H_cli

fun produces :: "call \<Rightarrow> handle list" where
  "produces GetConfig = [H_cfg]"
| "produces ManagerNew = [H_mgr]"
| "produces AddToScheme = []"
| "produces LocalNew = [H_driver]"
| "produces NewBackend = [H_backend]"
| "produces NewClient = [H_client]"
| "produces ContextWithCancel = [H_wmCtx, H_wmCancel]"
| "produces WatchNew = [H_wm]"
| "produces ControllerAdd = []"
| "produces WebhookAdd = []"
| "produces AuditAdd = []"
| "produces UpgradeAdd = []"
| "produces K8sCliNew = [H_cli]"

fun consumes :: "call \<Rightarrow> handle list" where
  "consumes GetConfig = []"
| "consumes ManagerNew = [H_cfg]"
| "consumes AddToScheme = [H_mgr]"
| "consumes LocalNew = []"
| "consumes NewBackend = [H_driver]"
| "consumes NewClient = [H_backend]"
| "consumes ContextWithCancel = []"
| "consumes WatchNew = [H_wmCtx, H_mgr]"
| "consumes ControllerAdd = [H_mgr, H_client, H_wm]"
| "consumes WebhookAdd = [H_mgr, H_client]"
| "consumes AuditAdd = [H_mgr, H_client]"
| "consumes UpgradeAdd = [H_mgr]"
| "consumes K8sCliNew = [H_mgr]"

fun handles_ok :: "handle list \<Rightarrow> event list \<Rightarrow> bool" where
  "handles_ok av [] = True"
| "handles_ok av (Call c # es) =
     (list_all (\<lambda>h. h \<in> set av) (consumes c) \<and> handles_ok (produces c @ av) es)"
| "handles_ok av (x # es) = handles_ok av es"

text \<open>
  The ten setup steps in the order of the specification, and the calls of a trace that
  are among them.
\<close>

definition setup_order :: "call list" where
  "setup_order =
     [GetConfig, ManagerNew, AddToScheme, NewBackend, NewClient, WatchNew,
      ControllerAdd, WebhookAdd, AuditAdd, UpgradeAdd]"

fun setup_calls :: "event list \<Rightarrow> call list" where
  "setup_calls [] = []"
| "setup_calls (Call c # es) =
     (if c \<in> set setup_order then c # setup_calls es else setup_calls es)"
| "setup_calls (x # es) = setup_calls es"

text \<open>
  Concrete environments and schedules.
\<close>

definition scheme_fail_env :: env where
  "scheme_fail_env = ok_env\<lparr>addToSchemeErr := True\<rparr>"

definition run_fail_env :: env where
  "run_fail_env = ok_env\<lparr>startErr := True\<rparr>"

definition client_fail_env :: env where
  "client_fail_env = ok_env\<lparr>newClientErr := True\<rparr>"

definition backend_fail_env :: env where
  "backend_fail_env = ok_env\<lparr>newBackendErr := True\<rparr>"

definition cli_fail_env :: env where
  "cli_fail_env = ok_env\<lparr>cliNewErr := True\<rparr>"


definition to_sleep :: "thread list" where
  "to_sleep = replicate 25 MainT"

definition to_cleanup :: "thread list" where
  "to_cleanup = to_sleep @ [Tick drain_delay] @ replicate 3 MainT"

definition staggered :: "thread list" where
  "staggered =
     to_cleanup @ [MainT, MainT, TemplT, Tick (1000 * second), MainT, MainT, SyncT,
                   MainT, MainT, MainT]"


section \<open>Invariants of every schedule\<close>

lemmas step_defs = step_def emit_def goto_def os_exit_def fatal_check_def
  sync_step_def templ_step_def

lemma marks_ok_init: "marks_ok e init"
  by (simp add: marks_ok_def init_def evs_def)

lemma marks_ok_step: "marks_ok e s \<Longrightarrow> marks_ok e (step e t s)"
proof (cases t)
  case MainT
  assume "marks_ok e s"
  then show ?thesis using MainT
    by (cases "pc s") (simp_all add: marks_ok_def evs_def step_defs markers_def Let_def)
qed (simp_all add: marks_ok_def evs_def step_defs)

lemma precedes_append:
  "precedes P Q (xs @ ys) \<longleftrightarrow>
     precedes P Q xs \<and> ((\<exists>x\<in>set xs. P x) \<or> precedes P Q ys)"
  by (induction xs) auto

lemma precedes_iff_nth:
  "precedes P Q xs \<longleftrightarrow> (\<forall>i<length xs. Q (xs ! i) \<longrightarrow> (\<exists>j<i. P (xs ! j)))"
proof (induction xs)
  case Nil
  show ?case by simp
next
  case (Cons x xs)
  show ?case
  proof (cases "P x")
    case True
    have "\<And>i. i < length (x # xs) \<Longrightarrow> Q ((x # xs) ! i) \<Longrightarrow> \<not> Q x \<Longrightarrow> \<exists>j<i. P ((x # xs) ! j)"
    proof -
      fix i assume "i < length (x # xs)" "Q ((x # xs) ! i)" "\<not> Q x"
      then have "0 < i" by (cases i) auto
      then show "\<exists>j<i. P ((x # xs) ! j)" using True by (intro exI[of _ 0]) simp
    qed
    moreover have "(\<forall>i<length (x # xs). Q ((x # xs) ! i) \<longrightarrow> (\<exists>j<i. P ((x # xs) ! j))) \<Longrightarrow> \<not> Q x"
      by (metis length_greater_0_conv list.distinct(1) not_less_zero nth_Cons_0)
    ultimately show ?thesis using True by auto
  next
    case False
    have "(\<forall>i<length (x # xs). Q ((x # xs) ! i) \<longrightarrow> (\<exists>j<i. P ((x # xs) ! j)))
       \<longleftrightarrow> \<not> Q x \<and> (\<forall>i<length xs. Q (xs ! i) \<longrightarrow> (\<exists>j<i. P (xs ! j)))" (is "?L \<longleftrightarrow> ?R")
    proof
      assume L: ?L
      have nq: "\<not> Q x" using L by (metis length_greater_0_conv list.distinct(1) not_less_zero nth_Cons_0)
      have "\<And>i. i < length xs \<Longrightarrow> Q (xs ! i) \<Longrightarrow> \<exists>j<i. P (xs ! j)"
      proof -
        fix i assume i: "i < length xs" "Q (xs ! i)"
        then obtain j where j: "j < Suc i" "P ((x # xs) ! j)" using L[rule_format, of "Suc i"] by auto
        with False obtain j' where "j = Suc j'" by (cases j) auto
        with j show "\<exists>j<i. P (xs ! j)" by auto
      qed
      with nq show ?R by blast
    next
      assume R: ?R
      show ?L
      proof (intro allI impI)
        fix i assume i: "i < length (x # xs)" "Q ((x # xs) ! i)"
        with R obtain i' where i': "i = Suc i'" by (cases i) auto
        with i R obtain j where "j < i'" "P (xs ! j)" by auto
        then show "\<exists>j<i. P ((x # xs) ! j)" using i' by (intro exI[of _ "Suc j"]) simp
      qed
    qed
    then show ?thesis using False Cons.IH by simp
  qed
qed

lemma work_ok_init: "work_ok init"
  by (simp add: work_ok_def init_def evs_def)

lemma work_ok_step: "work_ok s \<Longrightarrow> work_ok (step e t s)"
proof (cases t)
  case MainT
  assume "work_ok s"
  then show ?thesis using MainT
    by (cases "pc s") (auto simp add: work_ok_def evs_def step_defs Let_def precedes_append)
next
  case SyncT
  assume "work_ok s"
  then show ?thesis using SyncT
    by (cases "syncWorker s") (auto simp add: work_ok_def evs_def step_defs precedes_append)
next
  case TemplT
  assume "work_ok s"
  then show ?thesis using TemplT
    by (cases "templWorker s") (auto simp add: work_ok_def evs_def step_defs precedes_append)
next
  case (Tick n)
  assume "work_ok s"
  then show ?thesis using Tick
    by (simp add: work_ok_def evs_def step_defs)
qed

lemma chk_ok_init: "chk_ok e init"
  by (simp add: chk_ok_def init_def)

lemma exit_ok_init: "exit_ok init"
  by (simp add: exit_ok_def init_def evs_def)

lemma had_ok_init: "had_ok e init"
  by (simp add: had_ok_def init_def evs_def)

lemma limit_ok_init: "limit_ok e init"
  by (simp add: limit_ok_def init_def)

lemma time_ok_init: "time_ok init"
  by (simp add: time_ok_def init_def)

lemma worker_steps_idle:
  assumes "work_ok s" "rank (pc s) \<le> rank L_GoSync"
  shows "sync_step s = s" "templ_step s = s"
  using assms by (auto simp add: work_ok_def sync_step_def templ_step_def)

lemma fatal_at_rank: "fatal_at l = Some cm \<Longrightarrow> rank l \<le> rank L_GoSync"
  by (cases l) simp_all

lemma chk_ok_step: "work_ok s \<Longrightarrow> chk_ok e s \<Longrightarrow> chk_ok e (step e t s)"
proof (cases t)
  case MainT
  assume "work_ok s" "chk_ok e s"
  then show ?thesis using MainT
    by (cases "pc s") (auto simp add: chk_ok_def evs_def step_defs Let_def split: option.splits)
next
  case SyncT
  assume a: "work_ok s" "chk_ok e s"
  show ?thesis
  proof (cases "fatal_at (pc s)")
    case None
    then show ?thesis using SyncT by (simp add: chk_ok_def step_defs)
  next
    case (Some cm)
    then have "sync_step s = s" using a(1) fatal_at_rank worker_steps_idle by blast
    then show ?thesis using SyncT a(2) by (simp add: step_def)
  qed
next
  case TemplT
  assume a: "work_ok s" "chk_ok e s"
  show ?thesis
  proof (cases "fatal_at (pc s)")
    case None
    then show ?thesis using TemplT by (simp add: chk_ok_def step_defs)
  next
    case (Some cm)
    then have "templ_step s = s" using a(1) fatal_at_rank worker_steps_idle by blast
    then show ?thesis using TemplT a(2) by (simp add: step_def)
  qed
next
  case (Tick n)
  assume "work_ok s" "chk_ok e s"
  then show ?thesis using Tick
    by (auto simp add: chk_ok_def evs_def step_defs split: option.splits)
qed

lemma exit_ok_step: "exit_ok s \<Longrightarrow> exit_ok (step e t s)"
proof (cases t)
  case MainT
  assume "exit_ok s"
  then show ?thesis using MainT
    by (cases "pc s") (auto simp add: exit_ok_def evs_def step_defs Let_def split: option.splits)
qed (auto simp add: exit_ok_def evs_def step_defs split: option.splits)

lemma had_ok_step: "had_ok e s \<Longrightarrow> had_ok e (step e t s)"
proof (cases t)
  case MainT
  assume "had_ok e s"
  then show ?thesis using MainT
    by (cases "pc s") (auto simp add: had_ok_def evs_def step_defs Let_def)
qed (auto simp add: had_ok_def evs_def step_defs)

lemma time_ok_step: "time_ok s \<Longrightarrow> time_ok (step e t s)"
proof (cases t)
  case MainT
  assume "time_ok s"
  then show ?thesis using MainT
    by (cases "pc s") (auto simp add: time_ok_def step_defs Let_def)
next
  case (Tick n)
  assume "time_ok s"
  then show ?thesis using Tick by (fastforce simp add: time_ok_def step_defs)
qed (auto simp add: time_ok_def step_defs)

lemma limit_ok_step: "chk_ok e s \<Longrightarrow> limit_ok e s \<Longrightarrow> limit_ok e (step e t s)"
proof (cases t)
  case MainT
  assume a: "chk_ok e s" "limit_ok e s"
  have "limit_ok e (step e MainT s)" unfolding limit_ok_def
  proof (intro allI impI)
    fix l c m assume f: "fatal_at l = Some (c, m) \<and> fails e c"
    then have r: "rank (pc s) \<le> rank l" using a(2) by (auto simp: limit_ok_def)
    show "rank (pc (step e MainT s)) \<le> rank l"
    proof (cases "pc s = l")
      case True
      then have "err s" using a(1) f by (simp add: chk_ok_def)
      then show ?thesis using True f
        by (cases l) (simp_all add: step_defs)
    next
      case False
      then have "rank (pc s) < rank l" using r by (cases "pc s"; cases l) simp_all
      then show ?thesis
        by (cases "pc s") (simp_all add: step_defs Let_def)
    qed
  qed
  then show ?thesis using MainT by simp
qed (simp_all add: limit_ok_def step_defs)

lemma log_ok_init: "log_ok e init"
  by (simp add: log_ok_def init_def evs_def)

lemma log_ok_step: "had_ok e s \<Longrightarrow> log_ok e s \<Longrightarrow> log_ok e (step e t s)"
proof (cases t)
  case MainT
  assume "had_ok e s" "log_ok e s"
  then show ?thesis using MainT
    by (cases "pc s") (auto simp add: log_ok_def had_ok_def evs_def step_defs Let_def precedes_append)
qed (auto simp add: log_ok_def evs_def step_defs precedes_append)

lemma inv_init: "inv e init"
  by (simp add: inv_def marks_ok_init work_ok_init chk_ok_init exit_ok_init had_ok_init
      limit_ok_init time_ok_init log_ok_init)

lemma inv_step: "inv e s \<Longrightarrow> inv e (step e t s)"
  by (simp add: inv_def marks_ok_step work_ok_step chk_ok_step exit_ok_step had_ok_step
      limit_ok_step time_ok_step log_ok_step)


subsection \<open>Runs\<close>

lemma exec_from_Nil: "exec_from e s [] = s"
  by (simp add: exec_from_def)

lemma exec_from_Cons: "exec_from e s (t # sched) = exec_from e (step e t s) sched"
  by (simp add: exec_from_def)

lemma exec_from_append:
  "exec_from e s (xs @ ys) = exec_from e (exec_from e s xs) ys"
  by (simp add: exec_from_def)

lemma exec_append: "exec e (xs @ ys) = exec_from e (exec e xs) ys"
  by (simp add: exec_def exec_from_append)

lemma inv_exec_from: "inv e s \<Longrightarrow> inv e (exec_from e s sched)"
  by (induction sched arbitrary: s) (simp_all add: exec_from_Nil exec_from_Cons inv_step)

lemma inv_exec: "inv e (exec e sched)"
  by (simp add: exec_def inv_exec_from inv_init)

lemma step_exited: "exited s = Some k \<Longrightarrow> step e t s = s"
  by (simp add: step_def)

lemma exec_from_exited: "exited s = Some k \<Longrightarrow> exec_from e s sched = s"
  by (induction sched) (simp_all add: exec_from_Nil exec_from_Cons step_exited)

lemma step_other_pc:
  "t \<noteq> MainT \<Longrightarrow> pc (step e t s) = pc s \<and> exited (step e t s) = exited s"
  by (cases t) (simp_all add: step_defs)

lemma step_rank_mono: "rank (pc s) \<le> rank (pc (step e t s))"
proof (cases t)
  case MainT
  then show ?thesis by (cases "pc s") (simp_all add: step_defs Let_def)
qed (simp_all add: step_defs)

lemma main_progress:
  assumes "exited s = None" "rank (pc s) < rank L_Sleeping"
  shows "exited (step e MainT s) \<noteq> None \<or> rank (pc (step e MainT s)) = Suc (rank (pc s))"
  using assms by (cases "pc s") (simp_all add: step_defs)

lemma exec_progress:
  "exited (exec_from e s sched) \<noteq> None \<or>
   min (rank (pc s) + count_list sched MainT) (rank L_Sleeping)
     \<le> rank (pc (exec_from e s sched))"
proof (induction sched arbitrary: s)
  case Nil
  show ?case by (simp add: exec_from_Nil)
next
  case (Cons t sched)
  let ?s' = "step e t s"
  note IH = Cons.IH[of ?s']
  show ?case
  proof (cases "exited s")
    case (Some k)
    then show ?thesis by (simp add: exec_from_exited)
  next
    case None
    show ?thesis
    proof (cases "t = MainT")
      case False
      then have "pc ?s' = pc s" using step_other_pc by blast
      then show ?thesis using IH False by (simp add: exec_from_Cons)
    next
      case True
      show ?thesis
      proof (cases "rank (pc s) < rank L_Sleeping")
        case lt: True
        from main_progress[OF None lt, of e] show ?thesis
        proof
          assume "exited (step e MainT s) \<noteq> None"
          then show ?thesis using True by (auto simp add: exec_from_Cons exec_from_exited)
        next
          assume "rank (pc (step e MainT s)) = Suc (rank (pc s))"
          then show ?thesis using IH True by (simp add: exec_from_Cons)
        qed
      next
        case False
        then have "rank L_Sleeping \<le> rank (pc ?s')"
          using step_rank_mono[of s e t] by simp
        then show ?thesis using IH by (auto simp add: exec_from_Cons)
      qed
    qed
  qed
qed


subsection \<open>The process can always still exit\<close>

lemma todo_decreases:
  assumes "work_ok s" "exited s = None"
  shows "todo (step e (next_move s) s) < todo s"
  using assms
  by (cases "pc s"; cases "syncWorker s"; cases "templWorker s")
     (simp_all add: work_ok_def next_move_def todo_def step_defs Let_def)

lemma can_exit: "work_ok s \<Longrightarrow> \<exists>sched. exited (exec_from e s sched) \<noteq> None"
proof (induction "todo s" arbitrary: s rule: less_induct)
  case less
  show ?case
  proof (cases "exited s")
    case (Some k)
    then have "exited (exec_from e s []) \<noteq> None" by (simp add: exec_from_Nil)
    then show ?thesis by blast
  next
    case None
    let ?s' = "step e (next_move s) s"
    have "todo ?s' < todo s" using todo_decreases less.prems None by blast
    moreover have "work_ok ?s'" using less.prems by (rule work_ok_step)
    ultimately obtain sched where "exited (exec_from e ?s' sched) \<noteq> None"
      using less.hyps by blast
    then have "exited (exec_from e s (next_move s # sched)) \<noteq> None"
      by (simp add: exec_from_Cons)
    then show ?thesis by blast
  qed
qed


subsection \<open>What the trace shows at each location\<close>

lemma marker_seen:
  "marks_ok e s \<Longrightarrow> is_marker x \<Longrightarrow>
     x \<in> set (evs s) \<longleftrightarrow> x \<in> set (take (nmark (pc s)) (markers e))"
proof -
  assume a: "marks_ok e s" "is_marker x"
  have "x \<in> set (evs s) \<longleftrightarrow> x \<in> set (filter is_marker (evs s))" using a(2) by simp
  also have "filter is_marker (evs s) = take (nmark (pc s)) (markers e)"
    using a(1) by (simp only: marks_ok_def)
  finally show ?thesis .
qed

lemma seen_call:
  assumes "marks_ok e s"
  shows "Call c \<in> set (evs s) \<longleftrightarrow> rank (call_loc c) < rank (pc s)"
  using marker_seen[OF assms, of "Call c"]
  by (cases "pc s"; cases c) (simp_all add: markers_def)

lemma seen_run:
  assumes "marks_ok e s"
  shows "StartCalled \<in> set (evs s) \<longleftrightarrow> rank L_Start < rank (pc s)"
    and "StartReturned b \<in> set (evs s) \<longleftrightarrow> b = startErr e \<and> rank L_Running < rank (pc s)"
    and "WmCancel \<in> set (evs s) \<longleftrightarrow> rank L_WmCancel < rank (pc s)"
    and "SleepBegin d \<in> set (evs s) \<longleftrightarrow> d = drain_delay \<and> rank L_Sleep < rank (pc s)"
    and "SleepEnd \<in> set (evs s) \<longleftrightarrow> rank L_Sleeping < rank (pc s)"
proof -
  show "StartCalled \<in> set (evs s) \<longleftrightarrow> rank L_Start < rank (pc s)"
    using marker_seen[OF assms, of StartCalled]
    by (cases "pc s") (simp_all add: markers_def)
  show "StartReturned b \<in> set (evs s) \<longleftrightarrow> b = startErr e \<and> rank L_Running < rank (pc s)"
    using marker_seen[OF assms, of "StartReturned b"]
    by (cases "pc s") (simp_all add: markers_def)
  show "WmCancel \<in> set (evs s) \<longleftrightarrow> rank L_WmCancel < rank (pc s)"
    using marker_seen[OF assms, of WmCancel]
    by (cases "pc s") (simp_all add: markers_def)
  show "SleepBegin d \<in> set (evs s) \<longleftrightarrow> d = drain_delay \<and> rank L_Sleep < rank (pc s)"
    using marker_seen[OF assms, of "SleepBegin d"]
    by (cases "pc s") (simp_all add: markers_def)
  show "SleepEnd \<in> set (evs s) \<longleftrightarrow> rank L_Sleeping < rank (pc s)"
    using marker_seen[OF assms, of SleepEnd]
    by (cases "pc s") (simp_all add: markers_def)
qed

lemma seen_cleanup:
  assumes "marks_ok e s"
  shows "GoSync \<in> set (evs s) \<longleftrightarrow> rank L_GoSync < rank (pc s)"
    and "GoTempl \<in> set (evs s) \<longleftrightarrow> rank L_GoTempl < rank (pc s)"
    and "RecvSync \<in> set (evs s) \<longleftrightarrow> rank L_RecvSync < rank (pc s)"
    and "RecvTempl \<in> set (evs s) \<longleftrightarrow> rank L_RecvTempl < rank (pc s)"
proof -
  show "GoSync \<in> set (evs s) \<longleftrightarrow> rank L_GoSync < rank (pc s)"
    using marker_seen[OF assms, of GoSync]
    by (cases "pc s") (simp_all add: markers_def)
  show "GoTempl \<in> set (evs s) \<longleftrightarrow> rank L_GoTempl < rank (pc s)"
    using marker_seen[OF assms, of GoTempl]
    by (cases "pc s") (simp_all add: markers_def)
  show "RecvSync \<in> set (evs s) \<longleftrightarrow> rank L_RecvSync < rank (pc s)"
    using marker_seen[OF assms, of RecvSync]
    by (cases "pc s") (simp_all add: markers_def)
  show "RecvTempl \<in> set (evs s) \<longleftrightarrow> rank L_RecvTempl < rank (pc s)"
    using marker_seen[OF assms, of RecvTempl]
    by (cases "pc s") (simp_all add: markers_def)
qed

lemma count_list_filter: "P x \<Longrightarrow> count_list (filter P xs) x = count_list xs x"
  by (induction xs) auto

lemma precedes_filter:
  assumes "\<And>x. P x \<Longrightarrow> M x" "\<And>x. Q x \<Longrightarrow> M x"
  shows "precedes P Q (filter M xs) = precedes P Q xs"
  using assms by (induction xs) auto

lemma precedes_take: "precedes P Q xs \<Longrightarrow> precedes P Q (take n xs)"
proof -
  assume "precedes P Q xs"
  then have "precedes P Q (take n xs @ drop n xs)" by simp
  then show ?thesis unfolding precedes_append by simp
qed

lemma precedes_markers:
  assumes "marks_ok e s" "\<And>x. P x \<Longrightarrow> is_marker x" "\<And>x. Q x \<Longrightarrow> is_marker x"
    "precedes P Q (markers e)"
  shows "precedes P Q (evs s)"
proof -
  have "precedes P Q (take (nmark (pc s)) (markers e))" using assms(4) by (rule precedes_take)
  then have "precedes P Q (filter is_marker (evs s))" using assms(1) by (simp add: marks_ok_def)
  then show ?thesis using precedes_filter[of P is_marker Q] assms(2,3) by blast
qed

lemma count_WmCancel:
  assumes "marks_ok e s"
  shows "count_list (evs s) WmCancel = (if rank L_WmCancel < rank (pc s) then 1 else 0)"
proof -
  have "count_list (evs s) WmCancel = count_list (filter is_marker (evs s)) WmCancel"
    by (simp add: count_list_filter)
  also have "\<dots> = count_list (take (nmark (pc s)) (markers e)) WmCancel"
    using assms by (simp add: marks_ok_def)
  also have "\<dots> = (if rank L_WmCancel < rank (pc s) then 1 else 0)"
    by (cases "pc s") (simp_all add: markers_def)
  finally show ?thesis .
qed

lemma exec_from_rank_mono: "rank (pc s) \<le> rank (pc (exec_from e s sched))"
proof (induction sched arbitrary: s)
  case Nil
  show ?case by (simp add: exec_from_Nil)
next
  case (Cons t sched)
  have "rank (pc s) \<le> rank (pc (step e t s))" by (rule step_rank_mono)
  also have "\<dots> \<le> rank (pc (exec_from e (step e t s) sched))" by (rule Cons.IH)
  finally show ?case by (simp add: exec_from_Cons)
qed

lemma inv_marks: "inv e s \<Longrightarrow> marks_ok e s"
  by (simp add: inv_def)


subsection \<open>Where and how the process exits\<close>

lemma fatal_at_call_loc:
  "fatal_at l = Some (c, m) \<Longrightarrow> rank l = Suc (rank (call_loc c))"
  by (cases l) auto

lemma fatal_at_inj: "fatal_at l = Some (c, m) \<Longrightarrow> rank l' = rank l \<Longrightarrow> fatal_at l' = Some (c, m)"
  by (cases l; cases l') simp_all

lemma stopped_at:
  assumes i: "inv e s" and f: "fatal_at l = Some (c, m)" "fails e c"
    and seen: "Call c \<in> set (evs s)"
  shows "fatal_at (pc s) = Some (c, m)"
proof -
  have "rank (pc s) \<le> rank l" using i f by (auto simp: inv_def limit_ok_def)
  moreover have "rank (call_loc c) < rank (pc s)"
    using seen_call[OF inv_marks[OF i]] seen by simp
  ultimately have "rank (pc s) = rank l" using fatal_at_call_loc[OF f(1)] by simp
  then show ?thesis using f(1) fatal_at_inj by blast
qed

lemma exit_code_fatal:
  assumes "inv e s" "fatal_at (pc s) = Some (c, m)" "exited s = Some k"
  shows "k = 1 \<and> fails e c"
  using assms by (auto simp: inv_def chk_ok_def)

lemma exit_places:
  assumes "inv e s" "exited s = Some k"
  shows "(\<exists>c m. fatal_at (pc s) = Some (c, m) \<and> fails e c \<and> k = 1) \<or>
         (pc s = L_Final \<and> k = (if startErr e then 1 else 0))"
proof (cases "pc s = L_Final")
  case True
  then show ?thesis using assms by (auto simp: inv_def exit_ok_def had_ok_def)
next
  case False
  then obtain c m where "fatal_at (pc s) = Some (c, m)"
    using assms by (auto simp: inv_def exit_ok_def)
  then show ?thesis using exit_code_fatal[OF assms(1) _ assms(2)] by blast
qed

lemma fatal_exit_on_main:
  assumes "fatal_at (pc s) = Some (c, m)" "err s" "1 \<le> count_list sched MainT"
  shows "exited (exec_from e s sched) \<noteq> None"
  using assms
proof (induction sched arbitrary: s)
  case Nil
  then show ?case by simp
next
  case (Cons t sched)
  show ?case
  proof (cases "exited s")
    case (Some k)
    then show ?thesis by (simp add: exec_from_exited)
  next
    case None
    show ?thesis
    proof (cases t)
      case MainT
      have "exited (step e MainT s) \<noteq> None"
        using Cons.prems(1,2) None by (cases "pc s") (simp_all add: step_defs)
      then show ?thesis using MainT by (auto simp add: exec_from_Cons exec_from_exited)
    next
      case SyncT
      then have "fatal_at (pc (step e t s)) = Some (c, m) \<and> err (step e t s)"
        using Cons.prems(1,2) by (simp add: step_defs)
      then show ?thesis using Cons.IH Cons.prems(3) SyncT by (simp add: exec_from_Cons)
    next
      case TemplT
      then have "fatal_at (pc (step e t s)) = Some (c, m) \<and> err (step e t s)"
        using Cons.prems(1,2) by (simp add: step_defs)
      then show ?thesis using Cons.IH Cons.prems(3) TemplT by (simp add: exec_from_Cons)
    next
      case (Tick n)
      then have "fatal_at (pc (step e t s)) = Some (c, m) \<and> err (step e t s)"
        using Cons.prems(1,2) by (simp add: step_defs)
      then show ?thesis using Cons.IH Cons.prems(3) Tick by (simp add: exec_from_Cons)
    qed
  qed
qed

lemma inv_work: "inv e s \<Longrightarrow> work_ok s"
  by (simp add: inv_def)

lemma fatal_fails:
  "fatal_at l = Some (c, m) \<Longrightarrow> fails e c \<Longrightarrow> fatal_setup e \<or> cliNewErr e"
  by (cases l) (auto simp: fatal_setup_def)

lemma past_setup:
  assumes "inv e s" "rank L_UpgradeChk < rank (pc s)"
  shows "\<not> fatal_setup e"
proof
  assume "fatal_setup e"
  then obtain l c m where "fatal_at l = Some (c, m)" "fails e c" "rank l \<le> rank L_UpgradeChk"
    unfolding fatal_setup_def
  proof (elim disjE)
    assume "getConfigErr e" then show ?thesis using that[of L_GetConfigChk] by simp
  next
    assume "managerNewErr e" then show ?thesis using that[of L_ManagerNewChk] by simp
  next
    assume "addToSchemeErr e" then show ?thesis using that[of L_AddToSchemeChk] by simp
  next
    assume "newBackendErr e" then show ?thesis using that[of L_NewBackendChk] by simp
  next
    assume "controllerErr e" then show ?thesis using that[of L_ControllerChk] by simp
  next
    assume "webhookErr e" then show ?thesis using that[of L_WebhookChk] by simp
  next
    assume "auditErr e" then show ?thesis using that[of L_AuditChk] by simp
  next
    assume "upgradeErr e" then show ?thesis using that[of L_UpgradeChk] by simp
  qed
  then have "rank (pc s) \<le> rank L_UpgradeChk"
    using assms(1) unfolding inv_def limit_ok_def by (meson le_trans)
  then show False using assms(2) by simp
qed

lemma past_cli_check:
  assumes "inv e s" "rank L_CliNewChk < rank (pc s)"
  shows "\<not> cliNewErr e"
proof
  assume "cliNewErr e"
  then have "fatal_at L_CliNewChk = Some (K8sCliNew, ''unable to create cleanup client'') \<and>
             fails e K8sCliNew" by simp
  then have "rank (pc s) \<le> rank L_CliNewChk"
    using assms(1) unfolding inv_def limit_ok_def by blast
  then show False using assms(2) by simp
qed

lemma exited_final_shape:
  assumes i: "inv e s" and x: "exited s = Some k" and p: "pc s = L_Final"
  shows "\<exists>pre. evs s = pre @ [Exit k] \<and> (\<forall>k'. Exit k' \<notin> set pre) \<and>
           SyncFired \<in> set pre \<and> TemplFired \<in> set pre \<and>
           RecvSync \<in> set pre \<and> RecvTempl \<in> set pre \<and>
           GoSync \<in> set pre \<and> GoTempl \<in> set pre \<and>
           WmCancel \<in> set pre \<and> SleepBegin drain_delay \<in> set pre \<and> SleepEnd \<in> set pre \<and>
           precedes (\<lambda>x. x = SyncFired) (\<lambda>x. x = RecvSync) pre \<and>
           precedes (\<lambda>x. x = TemplFired) (\<lambda>x. x = RecvTempl) pre"
proof -
  obtain pre where pre: "evs s = pre @ [Exit k]" "\<forall>k'. Exit k' \<notin> set pre"
    using i x by (auto simp: inv_def exit_ok_def)
  have w: "work_ok s" using i by (rule inv_work)
  have m: "marks_ok e s" using i by (rule inv_marks)
  have "SyncFired \<in> set (evs s)" "TemplFired \<in> set (evs s)"
    using w p by (simp_all add: work_ok_def)
  moreover have "RecvSync \<in> set (evs s)" "RecvTempl \<in> set (evs s)"
    "GoSync \<in> set (evs s)" "GoTempl \<in> set (evs s)"
    using seen_cleanup[OF m] p by simp_all
  moreover have "WmCancel \<in> set (evs s)" "SleepBegin drain_delay \<in> set (evs s)"
    "SleepEnd \<in> set (evs s)"
    using seen_run[OF m] p by simp_all
  moreover have "precedes (\<lambda>x. x = SyncFired) (\<lambda>x. x = RecvSync) pre"
    "precedes (\<lambda>x. x = TemplFired) (\<lambda>x. x = RecvTempl) pre"
    using w pre(1) by (simp_all add: work_ok_def precedes_append)
  ultimately show ?thesis using pre by auto
qed

lemma can_exit_exec: "\<exists>sched'. exited (exec e (sched @ sched')) \<noteq> None"
proof -
  have "work_ok (exec e sched)" using inv_exec inv_work by blast
  then obtain sched' where "exited (exec_from e (exec e sched) sched') \<noteq> None"
    using can_exit by blast
  then show ?thesis by (auto simp: exec_append)
qed

lemma is_StartReturned_marker: "is_StartReturned x \<Longrightarrow> is_marker x"
  by (cases x) simp_all


subsection \<open>Order of the setup calls\<close>

lemma handles_ok_filter: "handles_ok av (filter is_marker xs) = handles_ok av xs"
proof (induction xs arbitrary: av)
  case Nil
  show ?case by simp
next
  case (Cons x xs)
  then show ?case by (cases x) simp_all
qed

lemma setup_calls_filter: "setup_calls (filter is_marker xs) = setup_calls xs"
proof (induction xs)
  case Nil
  show ?case by simp
next
  case (Cons x xs)
  then show ?case by (cases x) simp_all
qed

lemma handles_ok_prefix: "handles_ok av (xs @ ys) \<Longrightarrow> handles_ok av xs"
proof (induction xs arbitrary: av)
  case Nil
  show ?case by simp
next
  case (Cons x xs)
  then show ?case by (cases x) auto
qed

lemma handles_ok_markers: "handles_ok [] (take n (markers e))"
proof -
  have "handles_ok [] (markers e)" by (simp add: markers_def)
  then have "handles_ok [] (take n (markers e) @ drop n (markers e))" by simp
  then show ?thesis by (rule handles_ok_prefix)
qed

lemma setup_calls_at:
  "setup_calls (take (nmark l) (markers e)) =
     take (length (setup_calls (take (nmark l) (markers e)))) setup_order"
  by (cases l) (simp_all add: markers_def setup_order_def)

lemma setup_calls_done:
  "rank L_Upgrade < rank l \<Longrightarrow> setup_calls (take (nmark l) (markers e)) = setup_order"
  by (cases l) (simp_all add: markers_def setup_order_def)


subsection \<open>Time\<close>

lemma inv_time: "inv e s \<Longrightarrow> time_ok s"
  by (simp add: inv_def)

lemma in_evs_trace: "x \<in> set (evs s) \<longleftrightarrow> (\<exists>t. (t, x) \<in> set (trace s))"
  by (force simp add: evs_def)

lemma cancel_then_delay:
  assumes i: "inv e s" and a: "(t', x) \<in> set (trace s)" "after_sleep x"
  shows "(\<exists>t. (t, WmCancel) \<in> set (trace s)) \<and>
         (\<forall>t. (t, WmCancel) \<in> set (trace s) \<longrightarrow> t + drain_delay \<le> t')"
proof -
  have tk: "time_ok s" using i by (rule inv_time)
  have w: "wake s \<le> t'" and r: "rank L_Sleeping < rank (pc s)"
    using tk a unfolding time_ok_def by blast+
  have "WmCancel \<in> set (evs s)" using seen_run[OF inv_marks[OF i]] r by simp
  then have e1: "\<exists>t. (t, WmCancel) \<in> set (trace s)" by (simp add: in_evs_trace)
  have "\<forall>t. (t, WmCancel) \<in> set (trace s) \<longrightarrow> t + drain_delay \<le> wake s"
    using tk r unfolding time_ok_def by simp
  then have "\<forall>t. (t, WmCancel) \<in> set (trace s) \<longrightarrow> t + drain_delay \<le> t'"
    using w by (meson le_trans)
  then show ?thesis using e1 by blast
qed


subsection \<open>Evaluation of concrete runs\<close>

lemmas run_defs = exec_def exec_from_def step_defs init_def evs_def drain_delay_def second_def
  to_sleep_def to_cleanup_def staggered_def ok_env_def

lemma replicate_numeral_unfold: "replicate (numeral k) x = x # replicate (pred_numeral k) x"
  by (simp add: numeral_eq_Suc)


section \<open>The properties of the specification\<close>


subsection \<open>Fatal setup failures\<close>

text \<open>
  C1. If one of the setup steps connection discovery, manager construction, scheme
  registration, controller, webhook, audit or upgrade registration fails, then under
  every schedule: the only exit status is 1, and after twenty steps of \<^verbatim>\<open>main\<close>
  the process has exited; the run loop is never entered and neither cleanup worker is
  started; and once the failing call is made the trace ends with it, followed only by
  the error log and the exit, so that no later step runs, and the next step of
  \<^verbatim>\<open>main\<close> is that exit with status 1.
\<close>

theorem C1_setup_failure_exits:
  assumes c: "c \<in> {GetConfig, ManagerNew, AddToScheme, ControllerAdd, WebhookAdd, AuditAdd,
                    UpgradeAdd}"
    and f: "fails e c"
  shows "(exited (exec e sched) = None \<or> exited (exec e sched) = Some 1) \<and>
         (20 \<le> count_list sched MainT \<longrightarrow> exited (exec e sched) = Some 1) \<and>
         StartCalled \<notin> set (evs (exec e sched)) \<and>
         GoSync \<notin> set (evs (exec e sched)) \<and> GoTempl \<notin> set (evs (exec e sched)) \<and>
         syncWorker (exec e sched) = NotStarted \<and> templWorker (exec e sched) = NotStarted \<and>
         (Call c \<in> set (evs (exec e sched)) \<longrightarrow>
            (\<exists>pre m. evs (exec e sched) = pre @ [Call c] \<and> exited (exec e sched) = None \<or>
                      evs (exec e sched) = pre @ [Call c, LogError m, Exit 1] \<and>
                      exited (exec e sched) = Some 1) \<and>
            (1 \<le> count_list sched' MainT \<longrightarrow>
               exited (exec e (sched @ sched')) = Some 1))"
proof -
  let ?s = "exec e sched"
  have i: "inv e ?s" by (rule inv_exec)
  obtain l m where l: "fatal_at l = Some (c, m)" "rank l \<le> rank L_UpgradeChk"
  proof -
    from c consider "c = GetConfig" | "c = ManagerNew" | "c = AddToScheme" | "c = ControllerAdd"
      | "c = WebhookAdd" | "c = AuditAdd" | "c = UpgradeAdd" by auto
    then show ?thesis
    proof cases
      case 1 then show ?thesis using that[of L_GetConfigChk] by simp
    next
      case 2 then show ?thesis using that[of L_ManagerNewChk] by simp
    next
      case 3 then show ?thesis using that[of L_AddToSchemeChk] by simp
    next
      case 4 then show ?thesis using that[of L_ControllerChk] by simp
    next
      case 5 then show ?thesis using that[of L_WebhookChk] by simp
    next
      case 6 then show ?thesis using that[of L_AuditChk] by simp
    next
      case 7 then show ?thesis using that[of L_UpgradeChk] by simp
    qed
  qed
  have lim: "\<And>u. rank (pc (exec e u)) \<le> rank L_UpgradeChk"
  proof -
    fix u
    have "rank (pc (exec e u)) \<le> rank l"
      using inv_exec[of e u] l(1) f by (auto simp: inv_def limit_ok_def)
    then show "rank (pc (exec e u)) \<le> rank L_UpgradeChk" using l(2) by simp
  qed
  have code: "\<And>u k. exited (exec e u) = Some k \<Longrightarrow> k = 1"
  proof -
    fix u k assume "exited (exec e u) = Some k"
    from exit_places[OF inv_exec this] lim[of u] show "k = 1" by auto
  qed
  have r: "rank (pc ?s) \<le> rank L_UpgradeChk" by (rule lim)
  have a1: "exited ?s = None \<or> exited ?s = Some 1" using code by (cases "exited ?s") auto
  have a2: "20 \<le> count_list sched MainT \<longrightarrow> exited ?s = Some 1"
  proof
    assume n: "20 \<le> count_list sched MainT"
    have "exited ?s \<noteq> None \<or>
          min (rank (pc init) + count_list sched MainT) (rank L_Sleeping) \<le> rank (pc ?s)"
      unfolding exec_def by (rule exec_progress)
    then have "exited ?s \<noteq> None" using n r by (auto simp: init_def)
    then show "exited ?s = Some 1" using a1 by auto
  qed
  have a3: "StartCalled \<notin> set (evs ?s)" "GoSync \<notin> set (evs ?s)" "GoTempl \<notin> set (evs ?s)"
    using r seen_run[OF inv_marks[OF i]] seen_cleanup[OF inv_marks[OF i]] by simp_all
  have a4: "syncWorker ?s = NotStarted" "templWorker ?s = NotStarted"
    using i r by (simp_all add: inv_def work_ok_def)
  have a5: "Call c \<in> set (evs ?s) \<longrightarrow>
          (\<exists>pre m. evs ?s = pre @ [Call c] \<and> exited ?s = None \<or>
                    evs ?s = pre @ [Call c, LogError m, Exit 1] \<and> exited ?s = Some 1) \<and>
          (1 \<le> count_list sched' MainT \<longrightarrow> exited (exec e (sched @ sched')) = Some 1)"
  proof
    assume "Call c \<in> set (evs ?s)"
    then have p: "fatal_at (pc ?s) = Some (c, m)" using stopped_at[OF i l(1) f] by simp
    then have shape: "\<exists>pre m. evs ?s = pre @ [Call c] \<and> exited ?s = None \<or>
                    evs ?s = pre @ [Call c, LogError m, Exit 1] \<and> exited ?s = Some 1"
      using i by (cases "exited ?s") (auto simp: inv_def chk_ok_def)
    have next_step: "1 \<le> count_list sched' MainT \<longrightarrow> exited (exec e (sched @ sched')) = Some 1"
    proof
      assume n: "1 \<le> count_list sched' MainT"
      have "err ?s" using i p f by (simp add: inv_def chk_ok_def)
      then have "exited (exec_from e ?s sched') \<noteq> None"
        using fatal_exit_on_main[OF p _ n] by simp
      then obtain k where "exited (exec e (sched @ sched')) = Some k"
        by (auto simp: exec_append)
      then show "exited (exec e (sched @ sched')) = Some 1" using code by blast
    qed
    show "(\<exists>pre m. evs ?s = pre @ [Call c] \<and> exited ?s = None \<or>
                    evs ?s = pre @ [Call c, LogError m, Exit 1] \<and> exited ?s = Some 1) \<and>
          (1 \<le> count_list sched' MainT \<longrightarrow> exited (exec e (sched @ sched')) = Some 1)"
      using shape next_step by simp
  qed
  show ?thesis using a1 a2 a3 a4 a5 by blast
qed

theorem C1_witness:
  "fails scheme_fail_env AddToScheme \<and>
   Call AddToScheme \<in> set (evs (exec scheme_fail_env (replicate 6 MainT))) \<and>
   exited (exec scheme_fail_env (replicate 6 MainT)) = None \<and>
   exited (exec scheme_fail_env (replicate 6 MainT @ [MainT])) = Some 1 \<and>
   exited (exec scheme_fail_env (replicate 20 MainT)) = Some 1 \<and>
   StartCalled \<notin> set (evs (exec scheme_fail_env (replicate 20 MainT))) \<and>
   GoSync \<notin> set (evs (exec scheme_fail_env (replicate 20 MainT))) \<and>
   GoTempl \<notin> set (evs (exec scheme_fail_env (replicate 20 MainT))) \<and>
   (\<exists>pre m. evs (exec scheme_fail_env (replicate 20 MainT)) =
              pre @ [Call AddToScheme, LogError m, Exit 1])"
proof -
  have h1: "AddToScheme \<in> {GetConfig, ManagerNew, AddToScheme, ControllerAdd, WebhookAdd,
                             AuditAdd, UpgradeAdd}" by simp
  have h2: "fails scheme_fail_env AddToScheme" by (simp add: scheme_fail_env_def ok_env_def)
  have h3: "Call AddToScheme \<in> set (evs (exec scheme_fail_env (replicate 20 MainT)))"
    by (simp add: run_defs scheme_fail_env_def replicate_numeral_unfold)
  have h4: "20 \<le> count_list (replicate 20 MainT) MainT"
    by (simp add: replicate_numeral_unfold)
  have h5: "Call AddToScheme \<in> set (evs (exec scheme_fail_env (replicate 6 MainT))) \<and>
            exited (exec scheme_fail_env (replicate 6 MainT)) = None"
    by (simp add: run_defs scheme_fail_env_def replicate_numeral_unfold)
  have h6: "1 \<le> count_list [MainT] MainT" by simp
  have r1: "exited (exec scheme_fail_env (replicate 6 MainT @ [MainT])) = Some 1"
    using C1_setup_failure_exits [OF h1 h2, of "replicate 6 MainT" "[MainT]"] h5 h6 by blast
  have r2: "exited (exec scheme_fail_env (replicate 20 MainT)) = Some 1 \<and>
            StartCalled \<notin> set (evs (exec scheme_fail_env (replicate 20 MainT))) \<and>
            GoSync \<notin> set (evs (exec scheme_fail_env (replicate 20 MainT))) \<and>
            GoTempl \<notin> set (evs (exec scheme_fail_env (replicate 20 MainT))) \<and>
            (\<exists>pre m. evs (exec scheme_fail_env (replicate 20 MainT)) =
               pre @ [Call AddToScheme, LogError m, Exit 1])"
    using C1_setup_failure_exits [OF h1 h2, of "replicate 20 MainT" "[]"] h3 h4 by auto
  show ?thesis using h2 h5 r1 r2 by simp
qed


subsection \<open>The exit waits for both completion signals\<close>




subsection \<open>Exit codes\<close>

text \<open>
  The exit status is also 1 when every listed setup step and the run call succeed but
  the cleanup client cannot be constructed, and when the policy backend cannot be
  constructed.
\<close>

theorem C3_counterexample:
  "\<not> (exited (exec cli_fail_env to_cleanup) = Some 0 \<longleftrightarrow>
        \<not> listed_setup_failure cli_fail_env \<and> \<not> startErr cli_fail_env) \<and>
   exited (exec cli_fail_env to_cleanup) = Some 1 \<and>
   \<not> (exited (exec backend_fail_env (replicate 9 MainT)) = Some 0 \<longleftrightarrow>
        \<not> listed_setup_failure backend_fail_env \<and> \<not> startErr backend_fail_env) \<and>
   exited (exec backend_fail_env (replicate 9 MainT)) = Some 1"
  by (simp add: run_defs cli_fail_env_def backend_fail_env_def listed_setup_failure_def
      replicate_numeral_unfold)

text \<open>
  C3 (amended). When the process exits, its status is 0 exactly when no fatal setup
  step fails (connection discovery, manager construction, scheme registration, policy
  backend construction, the four registrations), the run call does not fail and the
  cleanup client is constructed; otherwise it is 1. After a fatal setup failure the run
  loop was not entered and no worker started. If the run call was made and the cleanup
  client is constructed, both completion signals were sent and received before the
  exit. From every reachable state the process can still exit.
\<close>

theorem C3_exit_code:
  "(exited (exec e sched) = Some k \<longrightarrow>
      (k = 0 \<longleftrightarrow> \<not> fatal_setup e \<and> \<not> startErr e \<and> \<not> cliNewErr e) \<and>
      (k = 0 \<or> k = 1) \<and>
      (fatal_setup e \<longrightarrow> StartCalled \<notin> set (evs (exec e sched)) \<and>
         GoSync \<notin> set (evs (exec e sched)) \<and> GoTempl \<notin> set (evs (exec e sched))) \<and>
      (StartCalled \<in> set (evs (exec e sched)) \<and> \<not> cliNewErr e \<longrightarrow>
         (\<exists>pre. evs (exec e sched) = pre @ [Exit k] \<and> (\<forall>k'. Exit k' \<notin> set pre) \<and>
            SyncFired \<in> set pre \<and> TemplFired \<in> set pre \<and>
            RecvSync \<in> set pre \<and> RecvTempl \<in> set pre))) \<and>
   (\<exists>sched'. exited (exec e (sched @ sched')) \<noteq> None)"
proof -
  let ?s = "exec e sched"
  have i: "inv e ?s" by (rule inv_exec)
  have m: "marks_ok e ?s" using i by (rule inv_marks)
  have a: "exited ?s = Some k \<longrightarrow>
      (k = 0 \<longleftrightarrow> \<not> fatal_setup e \<and> \<not> startErr e \<and> \<not> cliNewErr e) \<and>
      (k = 0 \<or> k = 1) \<and>
      (fatal_setup e \<longrightarrow> StartCalled \<notin> set (evs ?s) \<and>
         GoSync \<notin> set (evs ?s) \<and> GoTempl \<notin> set (evs ?s)) \<and>
      (StartCalled \<in> set (evs ?s) \<and> \<not> cliNewErr e \<longrightarrow>
         (\<exists>pre. evs ?s = pre @ [Exit k] \<and> (\<forall>k'. Exit k' \<notin> set pre) \<and>
            SyncFired \<in> set pre \<and> TemplFired \<in> set pre \<and>
            RecvSync \<in> set pre \<and> RecvTempl \<in> set pre))"
  proof
    assume x: "exited ?s = Some k"
    from exit_places[OF i x]
    consider (fatal) c m where "fatal_at (pc ?s) = Some (c, m)" "fails e c" "k = 1"
      | (final) "pc ?s = L_Final" "k = (if startErr e then 1 else 0)"
      by blast
    then show "(k = 0 \<longleftrightarrow> \<not> fatal_setup e \<and> \<not> startErr e \<and> \<not> cliNewErr e) \<and>
      (k = 0 \<or> k = 1) \<and>
      (fatal_setup e \<longrightarrow> StartCalled \<notin> set (evs ?s) \<and>
         GoSync \<notin> set (evs ?s) \<and> GoTempl \<notin> set (evs ?s)) \<and>
      (StartCalled \<in> set (evs ?s) \<and> \<not> cliNewErr e \<longrightarrow>
         (\<exists>pre. evs ?s = pre @ [Exit k] \<and> (\<forall>k'. Exit k' \<notin> set pre) \<and>
            SyncFired \<in> set pre \<and> TemplFired \<in> set pre \<and>
            RecvSync \<in> set pre \<and> RecvTempl \<in> set pre))"
    proof cases
      case fatal
      have f1: "fatal_setup e \<or> cliNewErr e" using fatal fatal_fails by blast
      have f2: "StartCalled \<in> set (evs ?s) \<longrightarrow> cliNewErr e"
      proof
        assume "StartCalled \<in> set (evs ?s)"
        then have "rank L_Start < rank (pc ?s)" using seen_run[OF m] by simp
        then have "pc ?s = L_CliNewChk" using fatal(1) by (cases "pc ?s") simp_all
        then show "cliNewErr e" using fatal by simp
      qed
      have f3: "GoSync \<notin> set (evs ?s)" "GoTempl \<notin> set (evs ?s)"
        using seen_cleanup[OF m] fatal_at_rank[OF fatal(1)] by simp_all
      have f4: "fatal_setup e \<longrightarrow> StartCalled \<notin> set (evs ?s)"
      proof (intro impI notI)
        assume "fatal_setup e" "StartCalled \<in> set (evs ?s)"
        then have "rank L_UpgradeChk < rank (pc ?s)" using seen_run[OF m] by simp
        then show False using past_setup[OF i] \<open>fatal_setup e\<close> by blast
      qed
      show ?thesis using fatal(3) f1 f2 f3 f4 by auto
    next
      case final
      have g1: "\<not> fatal_setup e" using past_setup[OF i] final(1) by simp
      have g2: "\<not> cliNewErr e" using past_cli_check[OF i] final(1) by simp
      from exited_final_shape[OF i x final(1)]
      have "\<exists>pre. evs ?s = pre @ [Exit k] \<and> (\<forall>k'. Exit k' \<notin> set pre) \<and>
            SyncFired \<in> set pre \<and> TemplFired \<in> set pre \<and>
            RecvSync \<in> set pre \<and> RecvTempl \<in> set pre" by blast
      then show ?thesis using final(2) g1 g2 by auto
    qed
  qed
  show ?thesis using a can_exit_exec by blast
qed

theorem C3_witness:
  "exited (exec ok_env staggered) = Some 0 \<and>
   \<not> fatal_setup ok_env \<and> \<not> startErr ok_env \<and> \<not> cliNewErr ok_env \<and>
   exited (exec run_fail_env staggered) = Some 1 \<and> startErr run_fail_env \<and>
   (\<exists>pre. evs (exec run_fail_env staggered) = pre @ [Exit 1] \<and>
      SyncFired \<in> set pre \<and> TemplFired \<in> set pre) \<and>
   exited (exec scheme_fail_env (replicate 20 MainT)) = Some 1 \<and>
   fatal_setup scheme_fail_env \<and>
   StartCalled \<notin> set (evs (exec scheme_fail_env (replicate 20 MainT))) \<and>
   (\<exists>sched'. exited (exec ok_env (to_sleep @ sched')) \<noteq> None)"
proof -
  have h1: "exited (exec ok_env staggered) = Some 0"
    by (simp add: run_defs replicate_numeral_unfold)
  have h2: "exited (exec run_fail_env staggered) = Some 1 \<and> startErr run_fail_env \<and>
            \<not> cliNewErr run_fail_env \<and>
            StartCalled \<in> set (evs (exec run_fail_env staggered))"
    by (simp add: run_defs run_fail_env_def replicate_numeral_unfold)
  have h3: "exited (exec scheme_fail_env (replicate 20 MainT)) = Some 1 \<and>
            fatal_setup scheme_fail_env"
    by (simp add: run_defs scheme_fail_env_def fatal_setup_def replicate_numeral_unfold)
  have r2: "\<exists>pre. evs (exec run_fail_env staggered) = pre @ [Exit 1] \<and>
              SyncFired \<in> set pre \<and> TemplFired \<in> set pre"
    using C3_exit_code [of run_fail_env staggered 1] h2 by blast
  have r3: "StartCalled \<notin> set (evs (exec scheme_fail_env (replicate 20 MainT)))"
    using C3_exit_code [of scheme_fail_env "replicate 20 MainT" 1] h3 by blast
  have r4: "\<exists>sched'. exited (exec ok_env (to_sleep @ sched')) \<noteq> None"
    using C3_exit_code [of ok_env to_sleep 0] by blast
  have r1: "(0::nat) = 0 \<longleftrightarrow> \<not> fatal_setup ok_env \<and> \<not> startErr ok_env \<and> \<not> cliNewErr ok_env"
    using C3_exit_code [of ok_env staggered 0] h1 by blast
  show ?thesis using r1 r2 r3 r4 h1 h2 h3 by simp
qed


subsection \<open>Cancellation of the watch lifetime\<close>

text \<open>
  C4. Under every schedule \<^verbatim>\<open>wmCancel()\<close> is invoked at most once and never
  before \<^verbatim>\<open>mgr.Start\<close> has returned; and once \<^verbatim>\<open>mgr.Start\<close> has
  returned, with an error or without, two further steps of \<^verbatim>\<open>main\<close> suffice for
  it to have been invoked exactly once, and it stays at once.
\<close>

theorem C4_watch_cancel_once_after_run:
  "count_list (evs (exec e sched)) WmCancel \<le> 1 \<and>
   precedes is_StartReturned (\<lambda>x. x = WmCancel) (evs (exec e sched)) \<and>
   (StartReturned b \<in> set (evs (exec e sched)) \<and> 2 \<le> count_list sched' MainT \<longrightarrow>
      count_list (evs (exec e (sched @ sched'))) WmCancel = 1)"
proof -
  let ?s = "exec e sched"
  let ?s' = "exec e (sched @ sched')"
  have m: "marks_ok e ?s" using inv_exec inv_marks by blast
  have m': "marks_ok e ?s'" using inv_exec inv_marks by blast
  have a: "count_list (evs ?s) WmCancel \<le> 1" by (simp add: count_WmCancel[OF m])
  have b: "precedes is_StartReturned (\<lambda>x. x = WmCancel) (evs ?s)"
    by (rule precedes_markers[OF m]) (simp_all add: is_StartReturned_marker markers_def)
  have c: "StartReturned b \<in> set (evs ?s) \<and> 2 \<le> count_list sched' MainT \<longrightarrow>
      count_list (evs ?s') WmCancel = 1"
  proof
    assume h: "StartReturned b \<in> set (evs ?s) \<and> 2 \<le> count_list sched' MainT"
    then have r: "rank L_Running < rank (pc ?s)" using seen_run[OF m] by simp
    have s': "?s' = exec_from e ?s sched'" by (rule exec_append)
    have mono: "rank (pc ?s) \<le> rank (pc ?s')" unfolding s' by (rule exec_from_rank_mono)
    have "rank L_WmCancel < rank (pc ?s')"
    proof (cases "exited ?s'")
      case None
      have "exited ?s' \<noteq> None \<or>
            min (rank (pc ?s) + count_list sched' MainT) (rank L_Sleeping) \<le> rank (pc ?s')"
        unfolding s' by (rule exec_progress)
      then show ?thesis using None h r by auto
    next
      case (Some k')
      from exit_places[OF inv_exec Some] show ?thesis
      proof
        assume "\<exists>c m. fatal_at (pc ?s') = Some (c, m) \<and> fails e c \<and> k' = 1"
        then obtain c m where "fatal_at (pc ?s') = Some (c, m)" by blast
        then show ?thesis using mono r by (cases "pc ?s'") simp_all
      next
        assume "pc ?s' = L_Final \<and> k' = (if startErr e then 1 else 0)"
        then show ?thesis by simp
      qed
    qed
    then show "count_list (evs ?s') WmCancel = 1" by (simp add: count_WmCancel[OF m'])
  qed
  show ?thesis using a b c by blast
qed

theorem C4_witness:
  "StartReturned True \<in> set (evs (exec run_fail_env (replicate 22 MainT))) \<and>
   count_list (evs (exec run_fail_env (replicate 22 MainT))) WmCancel = 0 \<and>
   2 \<le> count_list [MainT, MainT] MainT \<and>
   count_list (evs (exec run_fail_env (replicate 22 MainT @ [MainT, MainT]))) WmCancel = 1"
proof -
  have h1: "StartReturned True \<in> set (evs (exec run_fail_env (replicate 22 MainT))) \<and>
            count_list (evs (exec run_fail_env (replicate 22 MainT))) WmCancel = 0"
    by (simp add: run_defs run_fail_env_def replicate_numeral_unfold)
  have h2: "2 \<le> count_list [MainT, MainT] MainT" by simp
  show ?thesis
    using C4_watch_cancel_once_after_run [of run_fail_env "replicate 22 MainT" True
        "[MainT, MainT]"] h1 h2
    by blast
qed


subsection \<open>A failing run call\<close>





subsection \<open>The drain delay\<close>

text \<open>
  C6. Under every schedule each of the two \<^verbatim>\<open>go\<close> statements that start the
  cleanup workers is stamped at least the drain delay of 5 seconds after
  \<^verbatim>\<open>wmCancel()\<close>, which itself follows the return of the run call; a worker is
  running or has signalled only if its \<^verbatim>\<open>go\<close> statement is in the trace; and
  cancellation, begin of the sleep, end of the sleep and the start of the workers occur
  in this order.
\<close>

theorem C6_workers_start_after_drain:
  "(\<forall>t'. (t', GoSync) \<in> set (trace (exec e sched)) \<or>
          (t', GoTempl) \<in> set (trace (exec e sched)) \<longrightarrow>
      (\<exists>t. (t, WmCancel) \<in> set (trace (exec e sched))) \<and>
      (\<forall>t. (t, WmCancel) \<in> set (trace (exec e sched)) \<longrightarrow> t + drain_delay \<le> t')) \<and>
   (syncWorker (exec e sched) \<noteq> NotStarted \<longrightarrow> GoSync \<in> set (evs (exec e sched))) \<and>
   (templWorker (exec e sched) \<noteq> NotStarted \<longrightarrow> GoTempl \<in> set (evs (exec e sched))) \<and>
   precedes is_StartReturned (\<lambda>x. x = WmCancel) (evs (exec e sched)) \<and>
   precedes (\<lambda>x. x = WmCancel) (\<lambda>x. x = SleepBegin drain_delay) (evs (exec e sched)) \<and>
   precedes (\<lambda>x. x = SleepBegin drain_delay) (\<lambda>x. x = SleepEnd) (evs (exec e sched)) \<and>
   precedes (\<lambda>x. x = SleepEnd) (\<lambda>x. x = GoSync \<or> x = GoTempl) (evs (exec e sched)) \<and>
   drain_delay = 5 * 1000000000"
proof -
  let ?s = "exec e sched"
  have i: "inv e ?s" by (rule inv_exec)
  have m: "marks_ok e ?s" using i by (rule inv_marks)
  have a: "\<forall>t'. (t', GoSync) \<in> set (trace ?s) \<or> (t', GoTempl) \<in> set (trace ?s) \<longrightarrow>
      (\<exists>t. (t, WmCancel) \<in> set (trace ?s)) \<and>
      (\<forall>t. (t, WmCancel) \<in> set (trace ?s) \<longrightarrow> t + drain_delay \<le> t')"
  proof (intro allI impI)
    fix t' assume "(t', GoSync) \<in> set (trace ?s) \<or> (t', GoTempl) \<in> set (trace ?s)"
    then show "(\<exists>t. (t, WmCancel) \<in> set (trace ?s)) \<and>
      (\<forall>t. (t, WmCancel) \<in> set (trace ?s) \<longrightarrow> t + drain_delay \<le> t')"
    proof
      assume "(t', GoSync) \<in> set (trace ?s)"
      then show ?thesis using cancel_then_delay[OF i, of t' GoSync] by simp
    next
      assume "(t', GoTempl) \<in> set (trace ?s)"
      then show ?thesis using cancel_then_delay[OF i, of t' GoTempl] by simp
    qed
  qed
  have b: "syncWorker ?s \<noteq> NotStarted \<longrightarrow> GoSync \<in> set (evs ?s)"
    "templWorker ?s \<noteq> NotStarted \<longrightarrow> GoTempl \<in> set (evs ?s)"
    using inv_work[OF i] seen_cleanup[OF m] by (auto simp: work_ok_def)
  have c1: "precedes is_StartReturned (\<lambda>x. x = WmCancel) (evs ?s)"
    by (rule precedes_markers[OF m]) (simp_all add: is_StartReturned_marker markers_def)
  have c2: "precedes (\<lambda>x. x = WmCancel) (\<lambda>x. x = SleepBegin drain_delay) (evs ?s)"
    by (rule precedes_markers[OF m]) (simp_all add: markers_def)
  have c3: "precedes (\<lambda>x. x = SleepBegin drain_delay) (\<lambda>x. x = SleepEnd) (evs ?s)"
    by (rule precedes_markers[OF m]) (simp_all add: markers_def)
  have c4: "precedes (\<lambda>x. x = SleepEnd) (\<lambda>x. x = GoSync \<or> x = GoTempl) (evs ?s)"
    by (rule precedes_markers[OF m]) (auto simp add: markers_def)
  have d: "drain_delay = 5 * 1000000000" by (simp add: drain_delay_def second_def)
  show ?thesis using a b c1 c2 c3 c4 d by blast
qed

theorem C6_witness:
  "(0, WmCancel) \<in> set (trace (exec ok_env staggered)) \<and>
   (5000000000, GoSync) \<in> set (trace (exec ok_env staggered)) \<and>
   (5000000000, GoTempl) \<in> set (trace (exec ok_env staggered)) \<and>
   (0::nat) + drain_delay \<le> 5000000000 \<and>
   syncWorker (exec ok_env staggered) \<noteq> NotStarted \<and>
   GoSync \<in> set (evs (exec ok_env staggered)) \<and>
   templWorker (exec ok_env staggered) \<noteq> NotStarted \<and>
   GoTempl \<in> set (evs (exec ok_env staggered))"
proof -
  have h: "(0, WmCancel) \<in> set (trace (exec ok_env staggered)) \<and>
           (5000000000, GoSync) \<in> set (trace (exec ok_env staggered)) \<and>
           (5000000000, GoTempl) \<in> set (trace (exec ok_env staggered)) \<and>
           syncWorker (exec ok_env staggered) \<noteq> NotStarted \<and>
           templWorker (exec ok_env staggered) \<noteq> NotStarted"
    by (simp add: run_defs replicate_numeral_unfold)
  show ?thesis
    using C6_workers_start_after_drain [of ok_env staggered] h by blast
qed


subsection \<open>Log levels\<close>

text \<open>
  C7. The log-level mapping is total over input strings: \<^verbatim>\<open>DEBUG\<close> selects
  \<^verbatim>\<open>logf.ZapLogger(true)\<close> (the verbose configuration), \<^verbatim>\<open>WARNING\<close> and
  \<^verbatim>\<open>ERROR\<close> select the production configuration (JSON encoder, threshold
  \<^verbatim>\<open>WarnLevel\<close>, a sampler of 100/100 per second, stack traces from
  \<^verbatim>\<open>ErrorLevel\<close>), and \<^verbatim>\<open>INFO\<close> as well as every other string selects
  \<^verbatim>\<open>logf.ZapLogger(false)\<close> (the standard configuration). The first step of
  \<^verbatim>\<open>main\<close> installs the selected logger and never exits.
\<close>

theorem C7_log_level_mapping:
  "setLogger ''DEBUG'' = ZapLogger True \<and>
   setLogger ''WARNING'' = setLoggerForProduction \<and>
   setLogger ''ERROR'' = setLoggerForProduction \<and>
   setLogger ''INFO'' = ZapLogger False \<and>
   (lvl \<notin> {''DEBUG'', ''WARNING'', ''ERROR''} \<longrightarrow> setLogger lvl = setLogger ''INFO'') \<and>
   (\<exists>core opts. setLoggerForProduction = ZaprLogger core opts \<and>
      core_encoder core = JSONEncoderProduction \<and> core_level core = WarnLevel \<and>
      AddStacktrace ErrorLevel \<in> set opts \<and> WrapCoreSampler second 100 100 \<in> set opts) \<and>
   logger (exec e [MainT]) = Some (setLogger (logLevel e)) \<and>
   exited (exec e [MainT]) = None \<and>
   evs (exec e [MainT]) = [SetLogger (setLogger (logLevel e))]"
  by (simp add: setLogger_def setLoggerForProduction_def exec_def exec_from_def init_def
      step_defs evs_def)

theorem C7_witness:
  "''debug'' \<notin> {''DEBUG'', ''WARNING'', ''ERROR''} \<and>
   setLogger ''debug'' = ZapLogger False \<and>
   logger (exec ok_env [MainT]) = Some (ZapLogger False)"
  using C7_log_level_mapping [of "''debug''" ok_env]
  by (simp add: ok_env_def)


subsection \<open>Failure of the policy client\<close>

text \<open>
  C8. If construction of the policy client fails and no fatal setup step does, then
  under every schedule the process has not exited as long as the run loop is not
  entered; the error is logged before the watch manager is set up; and after twenty-one
  steps of \<^verbatim>\<open>main\<close> the watch manager has been constructed, the four
  registrations have been made and the run loop has been entered.
\<close>

theorem C8_policy_client_failure_not_fatal:
  assumes nc: "newClientErr e" and nf: "\<not> fatal_setup e"
  shows "(StartCalled \<notin> set (evs (exec e sched)) \<longrightarrow> exited (exec e sched) = None) \<and>
         precedes (\<lambda>x. x = LogError ''unable to set up OPA client'')
           (\<lambda>x. x = Call ContextWithCancel) (evs (exec e sched)) \<and>
         (21 \<le> count_list sched MainT \<longrightarrow>
            LogError ''unable to set up OPA client'' \<in> set (evs (exec e sched)) \<and>
            Call ContextWithCancel \<in> set (evs (exec e sched)) \<and>
            Call WatchNew \<in> set (evs (exec e sched)) \<and>
            Call ControllerAdd \<in> set (evs (exec e sched)) \<and>
            Call WebhookAdd \<in> set (evs (exec e sched)) \<and>
            Call AuditAdd \<in> set (evs (exec e sched)) \<and>
            Call UpgradeAdd \<in> set (evs (exec e sched)) \<and>
            StartCalled \<in> set (evs (exec e sched)))"
proof -
  let ?s = "exec e sched"
  have i: "inv e ?s" by (rule inv_exec)
  have m: "marks_ok e ?s" using i by (rule inv_marks)
  have late: "\<And>k. exited ?s = Some k \<Longrightarrow> rank L_CliNew < rank (pc ?s)"
  proof -
    fix k assume x: "exited ?s = Some k"
    from exit_places[OF i x] show "rank L_CliNew < rank (pc ?s)"
    proof
      assume "\<exists>c m. fatal_at (pc ?s) = Some (c, m) \<and> fails e c \<and> k = 1"
      then obtain c m where cm: "fatal_at (pc ?s) = Some (c, m)" "fails e c" by blast
      then show ?thesis using nf by (cases "pc ?s") (auto simp: fatal_setup_def)
    next
      assume "pc ?s = L_Final \<and> k = (if startErr e then 1 else 0)"
      then show ?thesis by simp
    qed
  qed
  have a: "StartCalled \<notin> set (evs ?s) \<longrightarrow> exited ?s = None"
  proof
    assume "StartCalled \<notin> set (evs ?s)"
    then have "\<not> rank L_Start < rank (pc ?s)" using seen_run[OF m] by simp
    then show "exited ?s = None" using late by (cases "exited ?s") auto
  qed
  have b: "precedes (\<lambda>x. x = LogError ''unable to set up OPA client'')
           (\<lambda>x. x = Call ContextWithCancel) (evs ?s)"
    using i nc by (simp add: inv_def log_ok_def)
  have c: "21 \<le> count_list sched MainT \<longrightarrow>
            LogError ''unable to set up OPA client'' \<in> set (evs ?s) \<and>
            Call ContextWithCancel \<in> set (evs ?s) \<and>
            Call WatchNew \<in> set (evs ?s) \<and>
            Call ControllerAdd \<in> set (evs ?s) \<and>
            Call WebhookAdd \<in> set (evs ?s) \<and>
            Call AuditAdd \<in> set (evs ?s) \<and>
            Call UpgradeAdd \<in> set (evs ?s) \<and>
            StartCalled \<in> set (evs ?s)"
  proof
    assume n: "21 \<le> count_list sched MainT"
    have r: "rank L_Start < rank (pc ?s)"
    proof (cases "exited ?s")
      case None
      have "exited ?s \<noteq> None \<or>
            min (rank (pc init) + count_list sched MainT) (rank L_Sleeping) \<le> rank (pc ?s)"
        unfolding exec_def by (rule exec_progress)
      then show ?thesis using None n by (auto simp: init_def)
    next
      case (Some k)
      then show ?thesis using late[OF Some] by simp
    qed
    have "LogError ''unable to set up OPA client'' \<in> set (evs ?s)"
      using i nc r by (simp add: inv_def had_ok_def)
    then show "LogError ''unable to set up OPA client'' \<in> set (evs ?s) \<and>
            Call ContextWithCancel \<in> set (evs ?s) \<and>
            Call WatchNew \<in> set (evs ?s) \<and>
            Call ControllerAdd \<in> set (evs ?s) \<and>
            Call WebhookAdd \<in> set (evs ?s) \<and>
            Call AuditAdd \<in> set (evs ?s) \<and>
            Call UpgradeAdd \<in> set (evs ?s) \<and>
            StartCalled \<in> set (evs ?s)"
      using r seen_call[OF m] seen_run[OF m] by simp
  qed
  show ?thesis using a b c by blast
qed

theorem C8_witness:
  "newClientErr client_fail_env \<and> \<not> fatal_setup client_fail_env \<and>
   21 \<le> count_list (replicate 21 MainT) MainT \<and>
   LogError ''unable to set up OPA client''
     \<in> set (evs (exec client_fail_env (replicate 21 MainT))) \<and>
   Call ControllerAdd \<in> set (evs (exec client_fail_env (replicate 21 MainT))) \<and>
   StartCalled \<in> set (evs (exec client_fail_env (replicate 21 MainT))) \<and>
   StartCalled \<notin> set (evs (exec client_fail_env (replicate 11 MainT))) \<and>
   exited (exec client_fail_env (replicate 11 MainT)) = None"
proof -
  have h1: "newClientErr client_fail_env" by (simp add: client_fail_env_def ok_env_def)
  have h2: "\<not> fatal_setup client_fail_env"
    by (simp add: client_fail_env_def ok_env_def fatal_setup_def)
  have h3: "21 \<le> count_list (replicate 21 MainT) MainT"
    by (simp add: replicate_numeral_unfold)
  have h4: "StartCalled \<notin> set (evs (exec client_fail_env (replicate 11 MainT)))"
    by (simp add: run_defs client_fail_env_def replicate_numeral_unfold)
  show ?thesis
    using C8_policy_client_failure_not_fatal [OF h1 h2, of "replicate 21 MainT"]
      C8_policy_client_failure_not_fatal [OF h1 h2, of "replicate 11 MainT"] h1 h2 h3 h4
    by blast
qed


subsection \<open>Order of the setup steps\<close>

text \<open>
  C9. Under every schedule and whatever the outcomes, the setup calls made so far are
  an initial segment of: connection discovery, manager construction, scheme
  registration, policy backend construction, policy client construction, watch-manager
  construction, controller, webhook, audit and upgrade registration; every call finds
  each handle it takes assigned by an earlier call; and if no fatal step fails,
  nineteen steps of \<^verbatim>\<open>main\<close> make all ten calls.
\<close>

theorem C9_setup_order:
  "(\<exists>n. setup_calls (evs (exec e sched)) = take n setup_order) \<and>
   handles_ok [] (evs (exec e sched)) \<and>
   (\<not> fatal_setup e \<and> 19 \<le> count_list sched MainT \<longrightarrow>
      setup_calls (evs (exec e sched)) = setup_order)"
proof -
  let ?s = "exec e sched"
  have i: "inv e ?s" by (rule inv_exec)
  have m: "filter is_marker (evs ?s) = take (nmark (pc ?s)) (markers e)"
    using inv_marks[OF i] by (simp only: marks_ok_def)
  have sc: "setup_calls (evs ?s) = setup_calls (take (nmark (pc ?s)) (markers e))"
    using setup_calls_filter[of "evs ?s"] m by simp
  have a: "\<exists>n. setup_calls (evs ?s) = take n setup_order"
    using sc setup_calls_at[of "pc ?s" e] by metis
  have "handles_ok [] (filter is_marker (evs ?s))" unfolding m by (rule handles_ok_markers)
  then have b: "handles_ok [] (evs ?s)" by (simp only: handles_ok_filter)
  have c: "\<not> fatal_setup e \<and> 19 \<le> count_list sched MainT \<longrightarrow> setup_calls (evs ?s) = setup_order"
  proof
    assume h: "\<not> fatal_setup e \<and> 19 \<le> count_list sched MainT"
    have "rank L_Upgrade < rank (pc ?s)"
    proof (cases "exited ?s")
      case None
      have "exited ?s \<noteq> None \<or>
            min (rank (pc init) + count_list sched MainT) (rank L_Sleeping) \<le> rank (pc ?s)"
        unfolding exec_def by (rule exec_progress)
      then show ?thesis using None h by (auto simp: init_def)
    next
      case (Some k)
      from exit_places[OF i Some] show ?thesis
      proof
        assume "\<exists>c m. fatal_at (pc ?s) = Some (c, m) \<and> fails e c \<and> k = 1"
        then obtain c m where cm: "fatal_at (pc ?s) = Some (c, m)" "fails e c" by blast
        then have "cliNewErr e" using fatal_fails h by blast
        then show ?thesis using cm h by (cases "pc ?s") (auto simp: fatal_setup_def)
      next
        assume "pc ?s = L_Final \<and> k = (if startErr e then 1 else 0)"
        then show ?thesis by simp
      qed
    qed
    then show "setup_calls (evs ?s) = setup_order" using sc setup_calls_done by simp
  qed
  show ?thesis using a b c by blast
qed

theorem C9_witness:
  "\<not> fatal_setup ok_env \<and> 19 \<le> count_list (replicate 19 MainT) MainT \<and>
   setup_calls (evs (exec ok_env (replicate 19 MainT))) = setup_order \<and>
   handles_ok [] (evs (exec ok_env (replicate 19 MainT)))"
proof -
  have h1: "\<not> fatal_setup ok_env" by (simp add: ok_env_def fatal_setup_def)
  have h2: "19 \<le> count_list (replicate 19 MainT) MainT"
    by (simp add: replicate_numeral_unfold)
  show ?thesis using C9_setup_order [of ok_env "replicate 19 MainT"] h1 h2 by blast
qed


subsection \<open>Failure of the cleanup client\<close>

text \<open>
  C10. If construction of the cleanup client fails, then under every schedule neither
  worker is ever started and the only exit status is 1; and once the construction has
  been attempted (the run call has returned and the drain delay has elapsed since the
  cancellation), the trace ends with that call, followed only by the error log and the
  exit, and one further step of \<^verbatim>\<open>main\<close> makes the process exit with status 1,
  also when every setup step and the run call succeeded.
\<close>

theorem C10_cleanup_client_failure:
  assumes cli: "cliNewErr e"
  shows "GoSync \<notin> set (evs (exec e sched)) \<and> GoTempl \<notin> set (evs (exec e sched)) \<and>
         syncWorker (exec e sched) = NotStarted \<and> templWorker (exec e sched) = NotStarted \<and>
         (exited (exec e sched) = None \<or> exited (exec e sched) = Some 1) \<and>
         (Call K8sCliNew \<in> set (evs (exec e sched)) \<longrightarrow>
            StartReturned (startErr e) \<in> set (evs (exec e sched)) \<and>
            SleepEnd \<in> set (evs (exec e sched)) \<and>
            (\<forall>t t'. (t, WmCancel) \<in> set (trace (exec e sched)) \<and>
                     (t', Call K8sCliNew) \<in> set (trace (exec e sched)) \<longrightarrow>
                     t + drain_delay \<le> t') \<and>
            (\<exists>pre m. evs (exec e sched) = pre @ [Call K8sCliNew] \<and>
                        exited (exec e sched) = None \<or>
                      evs (exec e sched) = pre @ [Call K8sCliNew, LogError m, Exit 1] \<and>
                        exited (exec e sched) = Some 1) \<and>
            (1 \<le> count_list sched' MainT \<longrightarrow>
               exited (exec e (sched @ sched')) = Some 1))"
proof -
  let ?s = "exec e sched"
  let ?m = "''unable to create cleanup client''"
  have i: "inv e ?s" by (rule inv_exec)
  have m: "marks_ok e ?s" using i by (rule inv_marks)
  have fa: "fatal_at L_CliNewChk = Some (K8sCliNew, ?m)" "fails e K8sCliNew"
    using cli by simp_all
  have lim: "\<And>u. rank (pc (exec e u)) \<le> rank L_CliNewChk"
    using inv_exec fa unfolding inv_def limit_ok_def by blast
  have code: "\<And>u k. exited (exec e u) = Some k \<Longrightarrow> k = 1"
  proof -
    fix u k assume "exited (exec e u) = Some k"
    from exit_places[OF inv_exec this] lim[of u] show "k = 1" by auto
  qed
  have a: "GoSync \<notin> set (evs ?s)" "GoTempl \<notin> set (evs ?s)"
    using seen_cleanup[OF m] lim[of sched] by simp_all
  have b: "syncWorker ?s = NotStarted" "templWorker ?s = NotStarted"
    using inv_work[OF i] lim[of sched] by (simp_all add: work_ok_def)
  have c: "exited ?s = None \<or> exited ?s = Some 1" using code by (cases "exited ?s") auto
  have d: "Call K8sCliNew \<in> set (evs ?s) \<longrightarrow>
            StartReturned (startErr e) \<in> set (evs ?s) \<and>
            SleepEnd \<in> set (evs ?s) \<and>
            (\<forall>t t'. (t, WmCancel) \<in> set (trace ?s) \<and> (t', Call K8sCliNew) \<in> set (trace ?s) \<longrightarrow>
                     t + drain_delay \<le> t') \<and>
            (\<exists>pre m. evs ?s = pre @ [Call K8sCliNew] \<and> exited ?s = None \<or>
                      evs ?s = pre @ [Call K8sCliNew, LogError m, Exit 1] \<and>
                        exited ?s = Some 1) \<and>
            (1 \<le> count_list sched' MainT \<longrightarrow> exited (exec e (sched @ sched')) = Some 1)"
  proof
    assume h: "Call K8sCliNew \<in> set (evs ?s)"
    have p: "fatal_at (pc ?s) = Some (K8sCliNew, ?m)" using stopped_at[OF i fa h] .
    then have pc: "pc ?s = L_CliNewChk" by (cases "pc ?s") simp_all
    have d1: "StartReturned (startErr e) \<in> set (evs ?s)" "SleepEnd \<in> set (evs ?s)"
      using seen_run[OF m] pc by simp_all
    have d2: "\<forall>t t'. (t, WmCancel) \<in> set (trace ?s) \<and> (t', Call K8sCliNew) \<in> set (trace ?s) \<longrightarrow>
                     t + drain_delay \<le> t'"
      using cancel_then_delay[OF i, of _ "Call K8sCliNew"] by simp
    have d3: "\<exists>pre m. evs ?s = pre @ [Call K8sCliNew] \<and> exited ?s = None \<or>
                      evs ?s = pre @ [Call K8sCliNew, LogError m, Exit 1] \<and> exited ?s = Some 1"
      using i p by (cases "exited ?s") (auto simp: inv_def chk_ok_def)
    have d4: "1 \<le> count_list sched' MainT \<longrightarrow> exited (exec e (sched @ sched')) = Some 1"
    proof
      assume n: "1 \<le> count_list sched' MainT"
      have "err ?s" using i p cli by (simp add: inv_def chk_ok_def)
      then have "exited (exec_from e ?s sched') \<noteq> None"
        using fatal_exit_on_main[OF p _ n] by simp
      then obtain k where "exited (exec e (sched @ sched')) = Some k"
        by (auto simp: exec_append)
      then show "exited (exec e (sched @ sched')) = Some 1" using code by blast
    qed
    show "StartReturned (startErr e) \<in> set (evs ?s) \<and>
            SleepEnd \<in> set (evs ?s) \<and>
            (\<forall>t t'. (t, WmCancel) \<in> set (trace ?s) \<and> (t', Call K8sCliNew) \<in> set (trace ?s) \<longrightarrow>
                     t + drain_delay \<le> t') \<and>
            (\<exists>pre m. evs ?s = pre @ [Call K8sCliNew] \<and> exited ?s = None \<or>
                      evs ?s = pre @ [Call K8sCliNew, LogError m, Exit 1] \<and>
                        exited ?s = Some 1) \<and>
            (1 \<le> count_list sched' MainT \<longrightarrow> exited (exec e (sched @ sched')) = Some 1)"
      using d1 d2 d3 d4 by simp
  qed
  show ?thesis using a b c d by blast
qed

theorem C10_witness:
  "cliNewErr cli_fail_env \<and> \<not> fatal_setup cli_fail_env \<and> \<not> startErr cli_fail_env \<and>
   Call K8sCliNew \<in> set (evs (exec cli_fail_env (to_sleep @ [Tick drain_delay, MainT, MainT]))) \<and>
   1 \<le> count_list [MainT] MainT \<and>
   exited (exec cli_fail_env ((to_sleep @ [Tick drain_delay, MainT, MainT]) @ [MainT])) = Some 1 \<and>
   GoSync \<notin> set (evs (exec cli_fail_env ((to_sleep @ [Tick drain_delay, MainT, MainT]) @ [MainT]))) \<and>
   syncWorker (exec cli_fail_env ((to_sleep @ [Tick drain_delay, MainT, MainT]) @ [MainT]))
     = NotStarted"
proof -
  have h1: "cliNewErr cli_fail_env \<and> \<not> fatal_setup cli_fail_env \<and> \<not> startErr cli_fail_env"
    by (simp add: cli_fail_env_def ok_env_def fatal_setup_def)
  have h2: "Call K8sCliNew
              \<in> set (evs (exec cli_fail_env (to_sleep @ [Tick drain_delay, MainT, MainT])))"
    by (simp add: run_defs cli_fail_env_def replicate_numeral_unfold)
  have h3: "1 \<le> count_list [MainT] MainT" by simp
  show ?thesis
    using C10_cleanup_client_failure [of cli_fail_env
        "to_sleep @ [Tick drain_delay, MainT, MainT]" "[MainT]"]
      C10_cleanup_client_failure [of cli_fail_env
        "(to_sleep @ [Tick drain_delay, MainT, MainT]) @ [MainT]"] h1 h2 h3
    by blast
qed

end
